theory Spec2Isabelle
  imports
    Main
    "HOL-Library.AList"
    "HOL-Library.Char_ord"
    "HOL-Library.List_Lexorder"
    "HOL-Library.Product_Lexorder"
    "HOL-Library.Multiset"
begin

section \<open>Data model of \<^verbatim>\<open>qubesmgmt/app.py\<close>\<close>

text \<open>
  Byte strings (\<^verbatim>\<open>bytes\<close>) are lists of 8-bit characters. Text strings (\<^verbatim>\<open>str\<close>) are
  represented by their UTF-8 encoding, also a list of 8-bit characters: an ASCII text is
  the list of its characters, \<^verbatim>\<open>encode('utf-8')\<close> is the identity, \<^verbatim>\<open>encode('ascii')\<close>
  and \<^verbatim>\<open>decode('ascii')\<close> succeed exactly on the strings whose characters are all below
  128, and \<^verbatim>\<open>decode()\<close> succeeds exactly on the valid UTF-8 sequences. Comparing two texts
  bytewise in this representation is comparing them by code points, as Python does.
\<close>

type_synonym bytes = string
type_synonym str = string

text \<open>
  Exceptions are values. \<open>QubesException\<close> carries the arguments it is constructed with
  (a message format and its parameters); \<open>KeyError\<close> carries the missing key.
  \<open>ConnectionError\<close> and \<open>OSError\<close> are Python's built-in classes, which the
  environment (socket, subprocess, daemon) may raise.
\<close>

datatype exn =
    QubesException str "str list"
  | ConnectionError str
  | OSError str
  | KeyError str
  | ValueError
  | AssertionError
  | TypeError
  | UnicodeEncodeError
  | UnicodeDecodeError

abbreviation NUL :: char where "NUL \<equiv> CHR 0x00"
abbreviation LF :: char where "LF \<equiv> CHR 0x0A"
abbreviation CR :: char where "CR \<equiv> CHR 0x0D"

subsection \<open>Codecs\<close>

definition is_ascii :: "string \<Rightarrow> bool" where
  "is_ascii s = list_all (\<lambda>c. (of_char c :: nat) < 128) s"

definition encode_ascii :: "str \<Rightarrow> exn + bytes" where
  \<comment> \<open>\<^verbatim>\<open>s.encode('ascii')\<close>\<close>
  "encode_ascii s = (if is_ascii s then Inr s else Inl UnicodeEncodeError)"

definition decode_ascii :: "bytes \<Rightarrow> exn + str" where
  \<comment> \<open>\<^verbatim>\<open>b.decode('ascii')\<close>\<close>
  "decode_ascii b = (if is_ascii b then Inr b else Inl UnicodeDecodeError)"

definition is_cont :: "nat \<Rightarrow> bool" where
  "is_cont b = (0x80 \<le> b \<and> b \<le> 0xBF)"

fun utf8_valid :: "nat list \<Rightarrow> bool" where
  "utf8_valid [] = True"
| "utf8_valid (b # bs) =
    (if b < 0x80 then utf8_valid bs
     else if 0xC2 \<le> b \<and> b \<le> 0xDF then
       (case bs of
          c1 # r \<Rightarrow> is_cont c1 \<and> utf8_valid r
        | _ \<Rightarrow> False)
     else if 0xE0 \<le> b \<and> b \<le> 0xEF then
       (case bs of
          c1 # c2 # r \<Rightarrow>
            (if b = 0xE0 then 0xA0 \<le> c1 \<and> c1 \<le> 0xBF
             else if b = 0xED then 0x80 \<le> c1 \<and> c1 \<le> 0x9F
             else is_cont c1)
            \<and> is_cont c2 \<and> utf8_valid r
        | _ \<Rightarrow> False)
     else if 0xF0 \<le> b \<and> b \<le> 0xF4 then
       (case bs of
          c1 # c2 # c3 # r \<Rightarrow>
            (if b = 0xF0 then 0x90 \<le> c1 \<and> c1 \<le> 0xBF
             else if b = 0xF4 then 0x80 \<le> c1 \<and> c1 \<le> 0x8F
             else is_cont c1)
            \<and> is_cont c2 \<and> is_cont c3 \<and> utf8_valid r
        | _ \<Rightarrow> False)
     else False)"

definition decode_utf8 :: "bytes \<Rightarrow> exn + str" where
  \<comment> \<open>\<^verbatim>\<open>b.decode()\<close>: strict UTF-8\<close>
  "decode_utf8 b = (if utf8_valid (map of_char b) then Inr b else Inl UnicodeDecodeError)"

subsection \<open>String splitting\<close>

text \<open>
  \<^verbatim>\<open>splitlines()\<close> without \<^verbatim>\<open>keepends\<close>: a line ends at a line boundary, \<^verbatim>\<open>\r\n\<close> counts
  as one boundary, and no empty last line is produced when the input ends with a
  boundary. The boundaries of \<^verbatim>\<open>bytes.splitlines\<close> are \<^verbatim>\<open>\n\<close> and \<^verbatim>\<open>\r\<close>; those of
  \<^verbatim>\<open>str.splitlines\<close> are, among the ASCII characters, also \<^verbatim>\<open>\v\<close>, \<^verbatim>\<open>\f\<close>,
  \<^verbatim>\<open>\x1c\<close>, \<^verbatim>\<open>\x1d\<close> and \<^verbatim>\<open>\x1e\<close>.
\<close>

fun splitlines_aux :: "(char \<Rightarrow> bool) \<Rightarrow> string \<Rightarrow> string \<Rightarrow> string list" where
  "splitlines_aux brk cur [] = (if cur = [] then [] else [cur])"
| "splitlines_aux brk cur (c # cs) =
    (if c = CR then
       (case cs of
          [] \<Rightarrow> [cur]
        | c' # cs' \<Rightarrow> if c' = LF then cur # splitlines_aux brk [] cs'
                     else cur # splitlines_aux brk [] cs)
     else if brk c then cur # splitlines_aux brk [] cs
     else splitlines_aux brk (cur @ [c]) cs)"

definition bytes_break :: "char \<Rightarrow> bool" where
  "bytes_break c = (c = LF)"

definition str_break :: "char \<Rightarrow> bool" where
  "str_break c = (c = LF \<or> c = CHR 0x0B \<or> c = CHR 0x0C \<or> c = CHR 0x1C \<or> c = CHR 0x1D
     \<or> c = CHR 0x1E)"

definition bytes_splitlines :: "bytes \<Rightarrow> bytes list" where
  "bytes_splitlines b = splitlines_aux bytes_break [] b"

definition str_splitlines :: "str \<Rightarrow> str list" where
  "str_splitlines s = splitlines_aux str_break [] s"

text \<open>\<^verbatim>\<open>s.split(sep, 1)\<close>: one or two pieces, cut at the first separator.\<close>

definition split1 :: "char \<Rightarrow> string \<Rightarrow> string list" where
  "split1 sep s =
     (case dropWhile (\<lambda>c. c \<noteq> sep) s of
        [] \<Rightarrow> [s]
      | _ # rest \<Rightarrow> [takeWhile (\<lambda>c. c \<noteq> sep) s, rest])"

text \<open>\<^verbatim>\<open>s.split(sep)\<close>: cut at every separator; never an empty list.\<close>

fun split_aux :: "char \<Rightarrow> string \<Rightarrow> string \<Rightarrow> string list" where
  "split_aux sep cur [] = [cur]"
| "split_aux sep cur (c # cs) =
    (if c = sep then cur # split_aux sep [] cs else split_aux sep (cur @ [c]) cs)"

definition split :: "char \<Rightarrow> string \<Rightarrow> string list" where
  "split sep s = split_aux sep [] s"

text \<open>\<^verbatim>\<open>a, b = xs\<close>: unpacking into two names raises \<open>ValueError\<close> unless there are two.\<close>

definition unpack2 :: "'a list \<Rightarrow> exn + ('a \<times> 'a)" where
  "unpack2 xs = (case xs of [a, b] \<Rightarrow> Inr (a, b) | _ \<Rightarrow> Inl ValueError)"

subsection \<open>Dictionaries\<close>

text \<open>
  A \<^verbatim>\<open>dict\<close> is an association list in insertion order with distinct keys:
  assignment replaces the value of a present key in place and appends a new key
  (\<^const>\<open>AList.update\<close>), \<^verbatim>\<open>del\<close> raises \<open>KeyError\<close> on a missing key.
\<close>

type_synonym ('k, 'v) dict = "('k \<times> 'v) list"

definition dict_del :: "str \<Rightarrow> (str, 'v) dict \<Rightarrow> exn + (str, 'v) dict" where
  "dict_del k d = (if k \<in> fst ` set d then Inr (AList.delete k d) else Inl (KeyError k))"

text \<open>
  \<^verbatim>\<open>dict(pairs)\<close> on a list of lists: every element must have length two
  (\<open>ValueError\<close> otherwise); a later pair overrides an earlier one with the same key.
\<close>

fun dict_of :: "str list list \<Rightarrow> (str, str) dict \<Rightarrow> exn + (str, str) dict" where
  "dict_of [] acc = Inr acc"
| "dict_of (p # ps) acc =
    (case p of
       [k, v] \<Rightarrow> dict_of ps (AList.update k v acc)
     | _ \<Rightarrow> Inl ValueError)"

section \<open>Transports\<close>

subsection \<open>\<^verbatim>\<open>QubesLocal.qubesd_call\<close>\<close>

text \<open>
  The socket is the byte stream written to it. The loop over
  \<^verbatim>\<open>('dom0', method, dest, arg)\<close> sends the encoded field when it is not \<^verbatim>\<open>None\<close> and
  then, in every case, one null byte. A failing \<^verbatim>\<open>encode\<close> leaves what was already sent.
\<close>

definition sendall :: "bytes \<Rightarrow> bytes \<Rightarrow> bytes" where
  "sendall sock data = sock @ data"

fun send_call_args :: "str option list \<Rightarrow> bytes \<Rightarrow> bytes \<times> exn option" where
  "send_call_args [] sock = (sock, None)"
| "send_call_args (call_arg # rest) sock =
    (case call_arg of
       None \<Rightarrow> send_call_args rest (sendall sock [NUL])
     | Some a \<Rightarrow>
        (case encode_ascii a of
           Inl e \<Rightarrow> (sock, Some e)
         | Inr b \<Rightarrow> send_call_args rest (sendall (sendall sock b) [NUL])))"

text \<open>
  The environment of the local transport: \<open>connect\<close> is the outcome of opening the
  socket (\<open>Some e\<close> when it raises), \<open>daemon\<close> maps the request stream to the bytes read
  back until end of stream, and \<open>parse_response\<close> stands for
  \<^verbatim>\<open>_parse_qubesd_response\<close> of the base class. The result is the stream written and the
  outcome of the call.
\<close>

definition QubesLocal_qubesd_call ::
  "exn option \<Rightarrow> (bytes \<Rightarrow> bytes) \<Rightarrow> (bytes \<Rightarrow> exn + bytes) \<Rightarrow>
   str \<Rightarrow> str \<Rightarrow> str option \<Rightarrow> bytes option \<Rightarrow> bytes \<times> (exn + bytes)" where
  "QubesLocal_qubesd_call connect daemon parse_response dest method arg payload =
     (case connect of
        Some e \<Rightarrow> ([], Inl e)
      | None \<Rightarrow>
         (case send_call_args [Some ''dom0'', Some method, Some dest, arg] [] of
            (sock, Some e) \<Rightarrow> (sock, Inl e)
          | (sock, None) \<Rightarrow>
             (let sock' = (case payload of None \<Rightarrow> sock | Some p \<Rightarrow> sendall sock p)
              in (sock', parse_response (daemon sock')))))"

text \<open>
  The framing as the specification words it: the fields in the order source, method,
  destination, argument, each present field followed by one null byte, an absent field
  skipped entirely, then the payload.
\<close>

definition spec_framing :: "str \<Rightarrow> str \<Rightarrow> str option \<Rightarrow> bytes option \<Rightarrow> bytes" where
  "spec_framing dest method arg payload =
     concat (map (\<lambda>f. case f of None \<Rightarrow> [] | Some a \<Rightarrow> a @ [NUL])
       [Some ''dom0'', Some method, Some dest, arg])
     @ (case payload of None \<Rightarrow> [] | Some p \<Rightarrow> p)"

subsection \<open>\<^verbatim>\<open>QubesRemote.qubesd_call\<close>\<close>

text \<open>
  The environment of the remote transport: \<open>popen argv stdin\<close> is the outcome of running
  the helper to completion, either an exception of \<^verbatim>\<open>subprocess\<close> or the triple
  (standard output, standard error, return code).
\<close>

definition QubesRemote_qubesd_call ::
  "(str list \<Rightarrow> bytes option \<Rightarrow> exn + (bytes \<times> bytes \<times> int)) \<Rightarrow> (bytes \<Rightarrow> exn + bytes) \<Rightarrow>
   str \<Rightarrow> str \<Rightarrow> str option \<Rightarrow> bytes option \<Rightarrow> exn + bytes" where
  "QubesRemote_qubesd_call popen parse_response dest method arg payload =
     (let service_name = (case arg of None \<Rightarrow> method | Some a \<Rightarrow> method @ ''+'' @ a)
      in case popen [''qrexec-client-vm'', dest, service_name] payload of
           Inl e \<Rightarrow> Inl e
         | Inr (stdout, stderr, returncode) \<Rightarrow>
            if returncode \<noteq> 0 then
              (case decode_utf8 stderr of
                 Inl e \<Rightarrow> Inl e
               | Inr msg \<Rightarrow> Inl (QubesException ''Service call error: %s'' [msg]))
            else parse_response stdout)"


text \<open>
  A helper run that writes \<open>out\<close> and \<open>err\<close> and exits with code \<open>rc\<close>, whatever
  its arguments and input.
\<close>

definition exited ::
  "bytes \<Rightarrow> bytes \<Rightarrow> int \<Rightarrow> str list \<Rightarrow> bytes option \<Rightarrow> exn + (bytes \<times> bytes \<times> int)" where
  "exited out err rc argv stdin = Inr (out, err, rc)"

section \<open>The application object and its collections\<close>

text \<open>
  A call is the tuple (destination, method, argument, payload) handed to
  \<^verbatim>\<open>self.app.qubesd_call\<close>. Which transport serves it is fixed by the subclass; for the
  collections the dispatcher is a function of the calls made so far and the current
  call, and every call is appended to the log \<open>actual_calls\<close>.
\<close>

type_synonym call = "str \<times> str \<times> str option \<times> bytes option"
type_synonym dispatcher = "call list \<Rightarrow> call \<Rightarrow> exn + bytes"

text \<open>
  A wrapper object: \<open>obj_ident\<close> is the object's identity (two references denote the same
  instance iff their \<open>obj_ident\<close> is equal), \<open>obj_name\<close> its live \<^verbatim>\<open>name\<close> attribute and
  \<open>obj_class\<close> its \<^verbatim>\<open>__class__.__name__\<close>. The collection reads these attributes and never
  writes them; a wrapper renamed by its owner shows as an entry of the instance table
  whose \<open>obj_name\<close> differs from its key. \<open>next_ident\<close> is the identity the next object
  created will get.
\<close>

record vm_obj =
  obj_ident :: nat
  obj_name :: str
  obj_class :: str

type_synonym snapshot = "(str, (str, str) dict) dict"

record state =
  actual_calls :: "call list"
  vm_list :: "snapshot option"
  vm_objects :: "(str, vm_obj) dict"
  next_ident :: nat
  pool_drivers_cache :: "(str, str list) dict option"

definition init :: state where
  \<comment> \<open>\<^verbatim>\<open>VMCollection.__init__\<close> and \<^verbatim>\<open>QubesBase.__init__\<close>\<close>
  "init = \<lparr>actual_calls = [], vm_list = None, vm_objects = [], next_ident = 0,
     pool_drivers_cache = None\<rparr>"

definition qubesd_call :: "dispatcher \<Rightarrow> call \<Rightarrow> state \<Rightarrow> (exn + bytes) \<times> state" where
  "qubesd_call d c s = (d (actual_calls s) c, s\<lparr>actual_calls := actual_calls s @ [c]\<rparr>)"

subsection \<open>\<^verbatim>\<open>QubesBase.add_pool\<close>\<close>

definition pool_line :: "str \<times> str \<Rightarrow> str" where
  \<comment> \<open>\<^verbatim>\<open>'{}={}\n'.format(key, value)\<close>\<close>
  "pool_line kv = fst kv @ ''='' @ snd kv @ [LF]"

text \<open>
  \<^verbatim>\<open>sorted(kwargs.items())\<close> orders the (key, value) pairs lexicographically, keys first
  and strings by code point: \<^const>\<open>sort\<close> at the product order of the list order on
  characters.
\<close>

text \<open>
  The signature is \<^verbatim>\<open>add_pool(self, name, driver, **kwargs)\<close>: a keyword argument named
  \<^verbatim>\<open>self\<close>, \<^verbatim>\<open>name\<close> or \<^verbatim>\<open>driver\<close> is a second value for that parameter, and the call
  raises \<open>TypeError\<close> before the body runs, so that no call is dispatched.
\<close>

definition add_pool ::
  "dispatcher \<Rightarrow> str \<Rightarrow> str \<Rightarrow> (str, str) dict \<Rightarrow> state \<Rightarrow> (exn + unit) \<times> state" where
  "add_pool d name driver kwargs s =
     (if list_ex (\<lambda>key. key \<in> {''self'', ''name'', ''driver''}) (map fst kwargs)
      then (Inl TypeError, s)
      else
        let payload = ''name='' @ name @ [LF] @ concat (map pool_line (sort kwargs))
        in case qubesd_call d (''dom0'', ''mgmt.pool.Add'', Some driver, Some payload) s of
             (Inl e, s') \<Rightarrow> (Inl e, s')
           | (Inr _, s') \<Rightarrow> (Inr (), s'))"

text \<open>
  A scripted dispatcher: the \<open>i\<close>-th call made is answered by the \<open>i\<close>-th reply of the
  script, and by a connection failure once the script is used up.
\<close>

definition scripted :: "(exn + bytes) list \<Rightarrow> dispatcher" where
  "scripted replies history c =
     (if length history < length replies then replies ! length history
      else Inl (ConnectionError ''no reply''))"

subsection \<open>\<^verbatim>\<open>VMCollection\<close>\<close>

definition clear_cache :: "state \<Rightarrow> state" where
  "clear_cache s = s\<lparr>vm_list := None\<rparr>"

text \<open>The body of the parsing loop of \<^verbatim>\<open>refresh_cache\<close>, for one line of the listing.\<close>

definition parse_vm_line :: "bytes \<Rightarrow> exn + (str \<times> (str, str) dict)" where
  "parse_vm_line vm_data =
     (case decode_ascii vm_data of
        Inl e \<Rightarrow> Inl e
      | Inr line \<Rightarrow>
         (case unpack2 (split1 CHR '' '' line) of
            Inl e \<Rightarrow> Inl e
          | Inr (vm_name, props) \<Rightarrow>
             (case dict_of (map (split1 CHR ''='') (split CHR '' '' props)) [] of
                Inl e \<Rightarrow> Inl e
              | Inr d \<Rightarrow> Inr (vm_name, d))))"

fun parse_vm_list :: "bytes list \<Rightarrow> snapshot \<Rightarrow> exn + snapshot" where
  "parse_vm_list [] new_vm_list = Inr new_vm_list"
| "parse_vm_list (vm_data # rest) new_vm_list =
    (case parse_vm_line vm_data of
       Inl e \<Rightarrow> Inl e
     | Inr (vm_name, props) \<Rightarrow> parse_vm_list rest (AList.update vm_name props new_vm_list))"

text \<open>
  The body of the reconciliation loop, for one item \<open>(name, vm)\<close> of the copy of the
  instance table taken before the loop. It returns the table as mutated so far and the
  exception raised, if any.
\<close>

definition del_object ::
  "str \<Rightarrow> (str, vm_obj) dict \<Rightarrow> (str, vm_obj) dict \<times> exn option" where
  \<comment> \<open>\<^verbatim>\<open>del self._vm_objects[name]\<close>\<close>
  "del_object k objs =
     (case dict_del k objs of Inl e \<Rightarrow> (objs, Some e) | Inr objs' \<Rightarrow> (objs', None))"

definition reconcile_step ::
  "snapshot \<Rightarrow> str \<times> vm_obj \<Rightarrow> (str, vm_obj) dict \<Rightarrow> (str, vm_obj) dict \<times> exn option" where
  "reconcile_step vl item objs =
     (let name = fst item; vm = snd item in
      case map_of vl (obj_name vm) of
        None \<Rightarrow> del_object name objs
      | Some props \<Rightarrow>
         (case map_of props ''class'' of
            None \<Rightarrow> (objs, Some (KeyError ''class''))
          | Some c \<Rightarrow>
             if obj_class vm \<noteq> c then del_object name objs
             else if name \<noteq> obj_name vm then
               del_object name (AList.update (obj_name vm) vm objs)
             else (objs, None)))"

fun reconcile ::
  "snapshot \<Rightarrow> (str \<times> vm_obj) list \<Rightarrow> (str, vm_obj) dict \<Rightarrow> (str, vm_obj) dict \<times> exn option"
  where
  "reconcile vl [] objs = (objs, None)"
| "reconcile vl (item # rest) objs =
    (case reconcile_step vl item objs of
       (objs', Some e) \<Rightarrow> (objs', Some e)
     | (objs', None) \<Rightarrow> reconcile vl rest objs')"

definition refresh_cache :: "dispatcher \<Rightarrow> bool \<Rightarrow> state \<Rightarrow> (exn + unit) \<times> state" where
  "refresh_cache d force s =
     (if \<not> force \<and> vm_list s \<noteq> None then (Inr (), s)
      else
        case qubesd_call d (''dom0'', ''mgmt.vm.List'', None, None) s of
          (Inl e, s1) \<Rightarrow> (Inl e, s1)
        | (Inr vm_list_data, s1) \<Rightarrow>
           (case parse_vm_list (bytes_splitlines vm_list_data) [] of
              Inl e \<Rightarrow> (Inl e, s1)
            | Inr new_vm_list \<Rightarrow>
               (case reconcile new_vm_list (vm_objects s1) (vm_objects s1) of
                  (objs, err) \<Rightarrow>
                    ((case err of None \<Rightarrow> Inr () | Some e \<Rightarrow> Inl e),
                     s1\<lparr>vm_list := Some new_vm_list, vm_objects := objs\<rparr>))))"

definition contains :: "dispatcher \<Rightarrow> str \<Rightarrow> state \<Rightarrow> (exn + bool) \<times> state" where
  \<comment> \<open>\<^verbatim>\<open>__contains__\<close>\<close>
  "contains d item s =
     (case refresh_cache d False s of
        (Inl e, s1) \<Rightarrow> (Inl e, s1)
      | (Inr _, s1) \<Rightarrow>
         (case vm_list s1 of
            None \<Rightarrow> (Inl TypeError, s1)
          | Some vl \<Rightarrow> (Inr (map_of vl item \<noteq> None), s1)))"

definition keys :: "dispatcher \<Rightarrow> state \<Rightarrow> (exn + str list) \<times> state" where
  "keys d s =
     (case refresh_cache d False s of
        (Inl e, s1) \<Rightarrow> (Inl e, s1)
      | (Inr _, s1) \<Rightarrow>
         (case vm_list s1 of
            None \<Rightarrow> (Inl TypeError, s1)
          | Some vl \<Rightarrow> (Inr (map fst vl), s1)))"

definition new_vm :: "nat \<Rightarrow> str \<Rightarrow> str \<Rightarrow> vm_obj" where
  \<comment> \<open>Modelled from the spec: the constructor \<^verbatim>\<open>cls(self.app, item)\<close> of the wrapper classes
     of \<^verbatim>\<open>qubesmgmt.vm\<close>, which is not among the sources. A wrapper object is identified by
     its name and class and is created on first access of a name, bound to the resolved
     class: the new instance has an identity of its own, the name it was created for and
     the name of its class.\<close>
  "new_vm i item cls = \<lparr>obj_ident = i, obj_name = item, obj_class = cls\<rparr>"

text \<open>
  \<^verbatim>\<open>__getitem__\<close>. The parameter \<open>get_entry_point_one\<close> stands for
  \<^verbatim>\<open>qubesmgmt.utils.get_entry_point_one('qubesmgmt.vm', _)\<close>: it maps the name of an entry
  point to the \<^verbatim>\<open>__name__\<close> of the class registered under it, or raises.
\<close>

definition getitem ::
  "dispatcher \<Rightarrow> (str \<Rightarrow> exn + str) \<Rightarrow> str \<Rightarrow> state \<Rightarrow> (exn + vm_obj) \<times> state" where
  "getitem d get_entry_point_one item s =
     (case contains d item s of
        (Inl e, s1) \<Rightarrow> (Inl e, s1)
      | (Inr False, s1) \<Rightarrow> (Inl (KeyError item), s1)
      | (Inr True, s1) \<Rightarrow>
         (case map_of (vm_objects s1) item of
            Some vm \<Rightarrow> (Inr vm, s1)
          | None \<Rightarrow>
             (case vm_list s1 of
                None \<Rightarrow> (Inl TypeError, s1)
              | Some vl \<Rightarrow>
                 (case map_of vl item of
                    None \<Rightarrow> (Inl (KeyError item), s1)
                  | Some props \<Rightarrow>
                     (case map_of props ''class'' of
                        None \<Rightarrow> (Inl (KeyError ''class''), s1)
                      | Some c \<Rightarrow>
                         (case get_entry_point_one c of
                            Inl e \<Rightarrow> (Inl e, s1)
                          | Inr cls \<Rightarrow>
                             (let vm = new_vm (next_ident s1) item cls
                              in (Inr vm,
                                  s1\<lparr>vm_objects := AList.update item vm (vm_objects s1),
                                     next_ident := Suc (next_ident s1)\<rparr>))))))))"

subsection \<open>\<^verbatim>\<open>QubesBase\<close>: pool drivers\<close>

definition endswith :: "bytes \<Rightarrow> bytes \<Rightarrow> bool" where
  "endswith b suffix = (length suffix \<le> length b \<and> drop (length b - length suffix) b = suffix)"

fun parse_pool_drivers :: "str list \<Rightarrow> (str, str list) dict \<Rightarrow> exn + (str, str list) dict"
  where
  "parse_pool_drivers [] pool_drivers = Inr pool_drivers"
| "parse_pool_drivers (driver_line # rest) pool_drivers =
    (if driver_line = [] then parse_pool_drivers rest pool_drivers
     else
       case unpack2 (split1 CHR '' '' driver_line) of
         Inl e \<Rightarrow> Inl e
       | Inr (driver_name, driver_options) \<Rightarrow>
          parse_pool_drivers rest
            (AList.update driver_name (split CHR '' '' driver_options) pool_drivers))"

definition refresh_pool_drivers :: "dispatcher \<Rightarrow> state \<Rightarrow> (exn + unit) \<times> state" where
  \<comment> \<open>\<^verbatim>\<open>_refresh_pool_drivers\<close>\<close>
  "refresh_pool_drivers d s =
     (case pool_drivers_cache s of
        Some _ \<Rightarrow> (Inr (), s)
      | None \<Rightarrow>
         (case qubesd_call d (''dom0'', ''mgmt.pool.ListDrivers'', None, None) s of
            (Inl e, s1) \<Rightarrow> (Inl e, s1)
          | (Inr pool_drivers_data, s1) \<Rightarrow>
             if \<not> endswith pool_drivers_data [LF] then (Inl AssertionError, s1)
             else
               (case decode_ascii pool_drivers_data of
                  Inl e \<Rightarrow> (Inl e, s1)
                | Inr text \<Rightarrow>
                   (case parse_pool_drivers (str_splitlines text) [] of
                      Inl e \<Rightarrow> (Inl e, s1)
                    | Inr pool_drivers \<Rightarrow>
                       (Inr (), s1\<lparr>pool_drivers_cache := Some pool_drivers\<rparr>)))))"

definition pool_drivers :: "dispatcher \<Rightarrow> state \<Rightarrow> (exn + str list) \<times> state" where
  "pool_drivers d s =
     (case refresh_pool_drivers d s of
        (Inl e, s1) \<Rightarrow> (Inl e, s1)
      | (Inr _, s1) \<Rightarrow>
         (case pool_drivers_cache s1 of
            None \<Rightarrow> (Inl TypeError, s1)
          | Some pd \<Rightarrow> (Inr (map fst pd), s1)))"

subsection \<open>Predicates used to state the properties\<close>

text \<open>
  The class a snapshot lists for a name: none when the name is not listed or its
  properties have no \<^verbatim>\<open>class\<close>.
\<close>

definition listed_class :: "snapshot \<Rightarrow> str \<Rightarrow> str option" where
  "listed_class vl n = (case map_of vl n of None \<Rightarrow> None | Some props \<Rightarrow> map_of props ''class'')"

text \<open>
  A line of a listing that is not a name, a space and space-separated \<^verbatim>\<open>key=value\<close>
  tokens: it has no space at all, or one of the tokens after the first space has no
  \<^verbatim>\<open>=\<close>.
\<close>

definition malformed_line :: "bytes \<Rightarrow> bool" where
  "malformed_line l =
     (CHR '' '' \<notin> set l
      \<or> list_ex (\<lambda>tok. CHR ''='' \<notin> set tok)
           (split CHR '' '' (tl (dropWhile (\<lambda>c. c \<noteq> CHR '' '') l))))"

text \<open>
  A listing as the daemon writes it, from its records: one line per record, the name, a
  space, and the \<^verbatim>\<open>key=value\<close> tokens joined by single spaces (\<open>join\<close> is \<^verbatim>\<open>sep.join\<close>),
  each line terminated by \<^verbatim>\<open>\n\<close>.
\<close>

fun join :: "string \<Rightarrow> string list \<Rightarrow> string" where
  "join sep [] = []"
| "join sep [x] = x"
| "join sep (x # y # ys) = x @ sep @ join sep (y # ys)"

definition listing_token :: "str \<times> str \<Rightarrow> str" where
  "listing_token kv = fst kv @ ''='' @ snd kv"

definition listing_line :: "str \<times> (str, str) dict \<Rightarrow> bytes" where
  "listing_line r = fst r @ '' '' @ join '' '' (map listing_token (snd r))"

definition listing_payload :: "snapshot \<Rightarrow> bytes" where
  "listing_payload recs = concat (map (\<lambda>r. listing_line r @ [LF]) recs)"

text \<open>
  The listing is well formed when the names are distinct and every record has a name and
  at least one property, among them \<^verbatim>\<open>class\<close>, with distinct keys; names, keys and values
  are ASCII without space or line break, and keys contain no \<^verbatim>\<open>=\<close>.
\<close>

definition plain :: "string \<Rightarrow> bool" where
  "plain s = (is_ascii s \<and> CHR '' '' \<notin> set s \<and> LF \<notin> set s \<and> CR \<notin> set s)"

definition well_formed_record :: "str \<times> (str, str) dict \<Rightarrow> bool" where
  "well_formed_record r =
     (plain (fst r) \<and> snd r \<noteq> [] \<and> distinct (map fst (snd r))
      \<and> ''class'' \<in> fst ` set (snd r)
      \<and> list_all (\<lambda>kv. plain (fst kv) \<and> CHR ''='' \<notin> set (fst kv) \<and> plain (snd kv)) (snd r))"

definition well_formed_listing :: "snapshot \<Rightarrow> bool" where
  "well_formed_listing recs = (distinct (map fst recs) \<and> list_all well_formed_record recs)"

text \<open>
  The instance table of a state is well formed when its keys are distinct (it is a
  dictionary), every instance in it was allocated (its identity is below the next one to
  be given out) and equal identities mean the same object.
\<close>

definition wf_table :: "state \<Rightarrow> bool" where
  "wf_table s =
     (distinct (map fst (vm_objects s))
      \<and> (\<forall>v \<in> snd ` set (vm_objects s). obj_ident v < next_ident s)
      \<and> (\<forall>v \<in> snd ` set (vm_objects s). \<forall>v' \<in> snd ` set (vm_objects s).
            obj_ident v = obj_ident v' \<longrightarrow> v = v'))"

text \<open>
  The table is in step with a snapshot when every instance is stored under its live
  name and the snapshot lists that name with the class of the instance.
\<close>

definition in_step :: "snapshot \<Rightarrow> (str, vm_obj) dict \<Rightarrow> bool" where
  "in_step vl tbl =
     (\<forall>(k, v) \<in> set tbl. obj_name v = k \<and> listed_class vl k = Some (obj_class v))"

section \<open>Request framing of the local transport\<close>

lemma send_call_args_ascii:
  "list_all (\<lambda>f. case f of None \<Rightarrow> True | Some a \<Rightarrow> is_ascii a) fs \<Longrightarrow>
   send_call_args fs sock =
     (sock @ concat (map (\<lambda>f. (case f of None \<Rightarrow> [] | Some a \<Rightarrow> a) @ [NUL]) fs), None)"
  by (induction fs arbitrary: sock)
     (auto simp: sendall_def encode_ascii_def split: option.splits)

text \<open>
  C1 (as the code has it). With ASCII fields and an open socket, the local transport
  writes \<^verbatim>\<open>dom0\<close>, the method, the destination and the argument in this order, each
  followed by one null byte, then the payload if there is one. An argument that is
  \<^verbatim>\<open>None\<close> contributes no characters but its terminating null byte is still written.
\<close>

theorem local_request_framing:
  assumes "is_ascii method" and "is_ascii dest"
    and "case arg of None \<Rightarrow> True | Some a \<Rightarrow> is_ascii a"
  shows "fst (QubesLocal_qubesd_call None daemon parse_response dest method arg payload) =
     ''dom0'' @ [NUL] @ method @ [NUL] @ dest @ [NUL]
       @ (case arg of None \<Rightarrow> [] | Some a \<Rightarrow> a) @ [NUL]
       @ (case payload of None \<Rightarrow> [] | Some p \<Rightarrow> p)"
proof -
  have "list_all (\<lambda>f. case f of None \<Rightarrow> True | Some a \<Rightarrow> is_ascii a)
          [Some ''dom0'', Some method, Some dest, arg]"
    using assms by (simp add: is_ascii_def)
  from send_call_args_ascii [OF this, of "[]"] show ?thesis
    by (simp add: QubesLocal_qubesd_call_def sendall_def Let_def split: option.splits)
qed

theorem local_request_framing_witness:
  "is_ascii ''mgmt.pool.Add'' \<and> is_ascii ''dom0'' \<and> is_ascii ''lvm''
   \<and> fst (QubesLocal_qubesd_call None id Inr ''dom0'' ''mgmt.pool.Add'' (Some ''lvm'')
        (Some ''name=p'')) =
      ''dom0'' @ [NUL] @ ''mgmt.pool.Add'' @ [NUL] @ ''dom0'' @ [NUL] @ ''lvm'' @ [NUL]
        @ ''name=p''"
  using local_request_framing [of "''mgmt.pool.Add''" "''dom0''" "Some ''lvm''" id Inr
      "Some ''name=p''"]
  by (simp add: is_ascii_def)

text \<open>
  C1 (as stated) fails: for the call \<^verbatim>\<open>qubesd_call('dom0', 'mgmt.vm.List')\<close>, whose
  argument is \<^verbatim>\<open>None\<close>, the stream written ends with two null bytes, the second being
  the empty token of the absent argument, which the specification says is not emitted.
\<close>

theorem local_request_framing_counterexample:
  "fst (QubesLocal_qubesd_call None id Inr ''dom0'' ''mgmt.vm.List'' None None) =
     ''dom0'' @ [NUL] @ ''mgmt.vm.List'' @ [NUL] @ ''dom0'' @ [NUL, NUL]
   \<and> fst (QubesLocal_qubesd_call None id Inr ''dom0'' ''mgmt.vm.List'' None None) \<noteq>
     spec_framing ''dom0'' ''mgmt.vm.List'' None None"
  by (simp add: QubesLocal_qubesd_call_def spec_framing_def sendall_def encode_ascii_def
      is_ascii_def)

section \<open>Failure of the remote helper\<close>

text \<open>
  C2 (as the code has it). When the helper exits with a non-zero return code and its
  standard error decodes as UTF-8, the remote transport raises \<open>QubesException\<close>
  constructed with the format \<^verbatim>\<open>'Service call error: %s'\<close> and, as its one parameter,
  the helper's standard-error text unchanged.
\<close>

theorem remote_nonzero_exit:
  assumes "popen [''qrexec-client-vm'', dest,
             (case arg of None \<Rightarrow> method | Some a \<Rightarrow> method @ ''+'' @ a)] payload
           = Inr (out, err, rc)"
    and "rc \<noteq> 0"
    and "utf8_valid (map of_char err)"
  shows "QubesRemote_qubesd_call popen parse_response dest method arg payload =
     Inl (QubesException ''Service call error: %s'' [err])"
  using assms by (simp add: QubesRemote_qubesd_call_def decode_utf8_def)

theorem remote_nonzero_exit_witness:
  "exited [] ''no such domain'' 1 [''qrexec-client-vm'', ''work'', ''mgmt.vm.Start''] None
     = Inr ([], ''no such domain'', 1)
   \<and> (1::int) \<noteq> 0
   \<and> utf8_valid (map of_char ''no such domain'')
   \<and> QubesRemote_qubesd_call (exited [] ''no such domain'' 1) Inr ''work'' ''mgmt.vm.Start''
        None None
      = Inl (QubesException ''Service call error: %s'' [''no such domain''])"
  using remote_nonzero_exit [of "exited [] ''no such domain'' 1" "''work''"
      "''mgmt.vm.Start''" None None "[]" "''no such domain''" 1 Inr]
  by (simp add: exited_def)

text \<open>
  C2 (as stated) fails: with return code 1 and the diagnostic \<^verbatim>\<open>no such domain\<close> the
  exception raised is a \<open>QubesException\<close>, not a \<open>ConnectionError\<close>.
\<close>

theorem remote_nonzero_exit_counterexample:
  "QubesRemote_qubesd_call (exited [] ''no such domain'' 1) Inr ''work'' ''mgmt.vm.Start''
     None None
   \<noteq> Inl (ConnectionError ''no such domain'')"
  by (simp add: QubesRemote_qubesd_call_def exited_def decode_utf8_def)

section \<open>The cached snapshot\<close>

lemma refresh_cache_cached:
  "vm_list s \<noteq> None \<Longrightarrow> refresh_cache d False s = (Inr (), s)"
  by (simp add: refresh_cache_def)

lemma refresh_cache_success_cached:
  "refresh_cache d force s = (Inr (), s1) \<Longrightarrow> vm_list s1 \<noteq> None"
  by (auto simp: refresh_cache_def qubesd_call_def
      split: if_splits sum.splits prod.splits option.splits)

lemma refresh_cache_calls:
  "force \<or> vm_list s = None \<Longrightarrow>
   actual_calls (snd (refresh_cache d force s)) =
     actual_calls s @ [(''dom0'', ''mgmt.vm.List'', None, None)]"
  by (auto simp: refresh_cache_def qubesd_call_def
      split: if_splits sum.splits prod.splits option.splits)

text \<open>
  C4. Starting with no cached list, a first \<^verbatim>\<open>refresh_cache(force=False)\<close> that returns
  has issued exactly one dispatcher call, the listing call; a second
  \<^verbatim>\<open>refresh_cache(force=False)\<close> right after it returns without changing anything: the
  call log, the cached list and the instance table are those left by the first.
\<close>

theorem refresh_cache_twice:
  assumes "vm_list s = None" and "refresh_cache d False s = (Inr (), s1)"
  shows "refresh_cache d False s1 = (Inr (), s1)
    \<and> actual_calls s1 = actual_calls s @ [(''dom0'', ''mgmt.vm.List'', None, None)]"
proof -
  from assms(2) have "vm_list s1 \<noteq> None" by (rule refresh_cache_success_cached)
  then have "refresh_cache d False s1 = (Inr (), s1)" by (rule refresh_cache_cached)
  moreover from refresh_cache_calls [of False s d] assms
  have "actual_calls s1 = actual_calls s @ [(''dom0'', ''mgmt.vm.List'', None, None)]"
    by simp
  ultimately show ?thesis by simp
qed

theorem refresh_cache_twice_witness:
  "vm_list init = None
   \<and> refresh_cache (scripted [Inr (''dom0 class=AdminVM'' @ [LF])]) False init =
       (Inr (), init\<lparr>actual_calls := [(''dom0'', ''mgmt.vm.List'', None, None)],
                     vm_list := Some [(''dom0'', [(''class'', ''AdminVM'')])]\<rparr>)
   \<and> refresh_cache (scripted [Inr (''dom0 class=AdminVM'' @ [LF])]) False
        (init\<lparr>actual_calls := [(''dom0'', ''mgmt.vm.List'', None, None)],
              vm_list := Some [(''dom0'', [(''class'', ''AdminVM'')])]\<rparr>) =
       (Inr (), init\<lparr>actual_calls := [(''dom0'', ''mgmt.vm.List'', None, None)],
                     vm_list := Some [(''dom0'', [(''class'', ''AdminVM'')])]\<rparr>)
   \<and> actual_calls (init\<lparr>actual_calls := [(''dom0'', ''mgmt.vm.List'', None, None)],
                     vm_list := Some [(''dom0'', [(''class'', ''AdminVM'')])]\<rparr>) =
       actual_calls init @ [(''dom0'', ''mgmt.vm.List'', None, None)]"
proof -
  have run: "refresh_cache (scripted [Inr (''dom0 class=AdminVM'' @ [LF])]) False init =
       (Inr (), init\<lparr>actual_calls := [(''dom0'', ''mgmt.vm.List'', None, None)],
                     vm_list := Some [(''dom0'', [(''class'', ''AdminVM'')])]\<rparr>)"
    by (simp add: refresh_cache_def qubesd_call_def scripted_def init_def bytes_splitlines_def
        bytes_break_def parse_vm_line_def decode_ascii_def is_ascii_def split1_def split_def
        unpack2_def)
  have none: "vm_list init = None" by (simp add: init_def)
  from refresh_cache_twice [OF none run] none run show ?thesis by simp
qed

section \<open>The payload of pool creation\<close>

lemma sorted_by_distinct_keys:
  fixes ps :: "(string \<times> string) list"
  shows "distinct (map fst ps) \<Longrightarrow> sorted (map fst ps) \<Longrightarrow> sorted ps"
proof (induction ps)
  case Nil
  then show ?case by simp
next
  case (Cons p ps)
  have "p \<le> q" if "q \<in> set ps" for q
  proof -
    from that Cons.prems have "fst p \<le> fst q" "fst p \<noteq> fst q" by auto
    then have "fst p < fst q" by simp
    then show ?thesis by (cases p, cases q) (simp add: less_eq_prod_def)
  qed
  with Cons show ?case by simp
qed

text \<open>
  C8 (as the code has it). Whatever the order in which the options are supplied
  (\<open>kwargs\<close>, a dictionary, so with distinct keys), and provided no option is named
  \<^verbatim>\<open>self\<close>, \<^verbatim>\<open>name\<close> or \<^verbatim>\<open>driver\<close>, \<^verbatim>\<open>add_pool\<close> issues one call to \<^verbatim>\<open>mgmt.pool.Add\<close> at
  \<^verbatim>\<open>dom0\<close> with the driver as argument, whose payload is \<^verbatim>\<open>name=<name>\n\<close> followed by
  one line \<^verbatim>\<open><key>=<value>\n\<close> per option, in the one arrangement \<open>ps\<close> of the options
  that has the keys in increasing lexicographic order.
\<close>

theorem add_pool_payload:
  assumes "distinct (map fst kwargs)" and "mset ps = mset kwargs" and "sorted (map fst ps)"
    and "set (map fst kwargs) \<inter> {''self'', ''name'', ''driver''} = {}"
  shows "actual_calls (snd (add_pool d name driver kwargs s)) =
     actual_calls s @ [(''dom0'', ''mgmt.pool.Add'', Some driver,
       Some (''name='' @ name @ [LF] @ concat (map (\<lambda>(k, v). k @ ''='' @ v @ [LF]) ps)))]"
proof -
  from assms(1,2) have "distinct (map fst ps)"
    by (metis mset_map mset_eq_imp_distinct_iff)
  with assms(3) have "sorted ps" by (simp add: sorted_by_distinct_keys)
  with assms(2) have "sort kwargs = ps"
    by (simp add: properties_for_sort)
  moreover have "pool_line = (\<lambda>(k, v). k @ ''='' @ v @ [LF])"
    by (auto simp: pool_line_def fun_eq_iff)
  moreover from assms(4)
  have "\<not> list_ex (\<lambda>key. key \<in> {''self'', ''name'', ''driver''}) (map fst kwargs)"
    unfolding list_ex_iff by blast
  ultimately show ?thesis
    by (simp add: add_pool_def qubesd_call_def Let_def split: sum.splits)
qed

theorem add_pool_payload_witness:
  "distinct (map fst [(''b'', ''2''), (''a'', ''1'')])
   \<and> mset [(''a'', ''1''), (''b'', ''2'')] = mset [(''b'', ''2''), (''a'', ''1'')]
   \<and> sorted (map fst [(''a'', ''1''), (''b'', ''2'')])
   \<and> set (map fst [(''b'', ''2''), (''a'', ''1'')]) \<inter> {''self'', ''name'', ''driver''} = {}
   \<and> actual_calls (snd (add_pool (scripted [Inr []]) ''n'' ''lvm''
         [(''b'', ''2''), (''a'', ''1'')] init)) =
       [(''dom0'', ''mgmt.pool.Add'', Some ''lvm'',
         Some (''name=n'' @ [LF] @ ''a=1'' @ [LF] @ ''b=2'' @ [LF]))]
   \<and> actual_calls (snd (add_pool (scripted [Inr []]) ''n'' ''lvm''
         [(''a'', ''1''), (''b'', ''2'')] init)) =
       [(''dom0'', ''mgmt.pool.Add'', Some ''lvm'',
         Some (''name=n'' @ [LF] @ ''a=1'' @ [LF] @ ''b=2'' @ [LF]))]"
  using add_pool_payload [of "[(''b'', ''2''), (''a'', ''1'')]" "[(''a'', ''1''), (''b'', ''2'')]"
      "scripted [Inr []]" "''n''" "''lvm''" init]
    add_pool_payload [of "[(''a'', ''1''), (''b'', ''2'')]" "[(''a'', ''1''), (''b'', ''2'')]"
      "scripted [Inr []]" "''n''" "''lvm''" init]
  by (simp add: init_def)

text \<open>
  C8 (as stated) fails for an option that bears the name of a parameter: the call
  \<^verbatim>\<open>add_pool('n', 'lvm', name='x')\<close> raises \<open>TypeError\<close> and sends nothing, where the claim
  has the payload \<^verbatim>\<open>name=n\nname=x\n\<close> sent.
\<close>

theorem add_pool_payload_counterexample:
  "add_pool (scripted [Inr []]) ''n'' ''lvm'' [(''name'', ''x'')] init = (Inl TypeError, init)
   \<and> actual_calls (snd (add_pool (scripted [Inr []]) ''n'' ''lvm'' [(''name'', ''x'')] init))
       \<noteq> [(''dom0'', ''mgmt.pool.Add'', Some ''lvm'',
            Some (''name=n'' @ [LF] @ ''name=x'' @ [LF]))]"
  by (simp add: add_pool_def init_def)

section \<open>Parsing the listing\<close>

lemma split1_absent: "sep \<notin> set s \<Longrightarrow> split1 sep s = [s]"
proof -
  assume "sep \<notin> set s"
  then have "dropWhile (\<lambda>c. c \<noteq> sep) s = []" by auto
  then show ?thesis by (simp only: split1_def list.case)
qed

lemma split1_present:
  "sep \<in> set s \<Longrightarrow>
   split1 sep s = [takeWhile (\<lambda>c. c \<noteq> sep) s, tl (dropWhile (\<lambda>c. c \<noteq> sep) s)]"
proof -
  assume "sep \<in> set s"
  then have "dropWhile (\<lambda>c. c \<noteq> sep) s \<noteq> []" by simp
  then obtain x rest where "dropWhile (\<lambda>c. c \<noteq> sep) s = x # rest"
    by (cases "dropWhile (\<lambda>c. c \<noteq> sep) s") auto
  then show ?thesis by (simp add: split1_def)
qed

lemma unpack2_error: "unpack2 xs = Inl e \<Longrightarrow> e = ValueError"
  by (auto simp: unpack2_def split: list.splits)

lemma dict_of_error: "dict_of ps acc = Inl e \<Longrightarrow> e = ValueError"
  by (induction ps acc rule: dict_of.induct) (auto split: list.splits)

lemma dict_of_bad_pair: "\<exists>p \<in> set ps. length p \<noteq> 2 \<Longrightarrow> dict_of ps acc = Inl ValueError"
  by (induction ps acc rule: dict_of.induct) (auto split: list.splits)

lemma parse_vm_line_error:
  "parse_vm_line l = Inl e \<Longrightarrow> e = ValueError \<or> (e = UnicodeDecodeError \<and> \<not> is_ascii l)"
  by (auto simp: parse_vm_line_def decode_ascii_def
      dest: dict_of_error unpack2_error split: sum.splits if_splits)

lemma parse_vm_line_malformed:
  assumes "malformed_line l"
  shows "\<exists>e. parse_vm_line l = Inl e"
proof (cases "is_ascii l")
  case False
  then show ?thesis by (simp add: parse_vm_line_def decode_ascii_def)
next
  case True
  show ?thesis
  proof (cases "CHR '' '' \<in> set l")
    case False
    with True show ?thesis
      by (simp add: parse_vm_line_def decode_ascii_def split1_absent unpack2_def)
  next
    case sp: True
    with assms obtain tok where
      tok: "tok \<in> set (split CHR '' '' (tl (dropWhile (\<lambda>c. c \<noteq> CHR '' '') l)))"
        "CHR ''='' \<notin> set tok"
      by (auto simp: malformed_line_def list_ex_iff)
    then have "\<exists>p \<in> set (map (split1 CHR ''='')
        (split CHR '' '' (tl (dropWhile (\<lambda>c. c \<noteq> CHR '' '') l)))). length p \<noteq> 2"
      by (auto simp: split1_absent intro!: bexI [of _ tok])
    from dict_of_bad_pair [OF this] True sp show ?thesis
      by (simp add: parse_vm_line_def decode_ascii_def split1_present unpack2_def)
  qed
qed

lemma parse_vm_list_error:
  "parse_vm_list ls acc = Inl e \<Longrightarrow>
   e = ValueError \<or> (e = UnicodeDecodeError \<and> (\<exists>l \<in> set ls. \<not> is_ascii l))"
proof (induction ls arbitrary: acc)
  case Nil
  then show ?case by simp
next
  case (Cons l ls)
  show ?case
  proof (cases "parse_vm_line l")
    case (Inl e')
    with Cons.prems have "e' = e" by simp
    with parse_vm_line_error [OF Inl] show ?thesis by auto
  next
    case (Inr r)
    with Cons.prems have "parse_vm_list ls (AList.update (fst r) (snd r) acc) = Inl e"
      by (cases r) simp
    from Cons.IH [OF this] show ?thesis by auto
  qed
qed

lemma parse_vm_list_malformed:
  "\<exists>l \<in> set ls. malformed_line l \<Longrightarrow> \<exists>e. parse_vm_list ls acc = Inl e"
proof (induction ls acc rule: parse_vm_list.induct)
  case (1 new_vm_list)
  then show ?case by simp
next
  case (2 vm_data rest new_vm_list)
  show ?case
  proof (cases "parse_vm_line vm_data")
    case (Inl e)
    then show ?thesis by simp
  next
    case (Inr r)
    with parse_vm_line_malformed [of vm_data] have "\<not> malformed_line vm_data" by auto
    with "2.prems" have "\<exists>l \<in> set rest. malformed_line l" by auto
    with "2.IH" Inr show ?thesis by (cases r) auto
  qed
qed

lemma splitlines_aux_chars:
  "l \<in> set (splitlines_aux brk cur s) \<Longrightarrow> set l \<subseteq> set cur \<union> set s"
proof (induction brk cur s rule: splitlines_aux.induct)
  case (1 brk cur)
  then show ?case by (simp split: if_splits)
next
  case (2 brk cur c cs)
  show ?case
  proof (cases "c = CR")
    case True
    show ?thesis
    proof (cases cs)
      case Nil
      with True "2.prems" show ?thesis by auto
    next
      case (Cons c' cs')
      show ?thesis
      proof (cases "c' = LF")
        case lf: True
        with True Cons "2.prems" have "l = cur \<or> l \<in> set (splitlines_aux brk [] cs')" by simp
        with "2.IH"(1) [OF True Cons lf] Cons show ?thesis by auto
      next
        case nlf: False
        with True Cons "2.prems" have "l = cur \<or> l \<in> set (splitlines_aux brk [] cs)" by simp
        with "2.IH"(2) [OF True Cons nlf] show ?thesis by auto
      qed
    qed
  next
    case False
    show ?thesis
    proof (cases "brk c")
      case True
      with False "2.prems" have "l = cur \<or> l \<in> set (splitlines_aux brk [] cs)" by simp
      with "2.IH"(3) [OF False True] show ?thesis by auto
    next
      case nb: False
      with False "2.prems" have "l \<in> set (splitlines_aux brk (cur @ [c]) cs)" by simp
      with "2.IH"(4) [OF False nb] show ?thesis by auto
    qed
  qed
qed

lemma bytes_splitlines_ascii:
  "is_ascii b \<Longrightarrow> l \<in> set (bytes_splitlines b) \<Longrightarrow> is_ascii l"
  using splitlines_aux_chars [of l bytes_break "[]" b]
  by (auto simp: bytes_splitlines_def is_ascii_def list_all_iff)

text \<open>
  C7 (as the code has it). When the listing returned to a refresh that does call the
  daemon contains a line without a space or with a property token without \<^verbatim>\<open>=\<close>, the
  refresh raises \<open>ValueError\<close> (or \<open>UnicodeDecodeError\<close>, and only when the payload is
  not ASCII), and neither the cached list nor the instance table changes: the line is
  not skipped and no empty collection is installed.
\<close>

theorem refresh_cache_malformed:
  assumes "force \<or> vm_list s = None"
    and "d (actual_calls s) (''dom0'', ''mgmt.vm.List'', None, None) = Inr payload"
    and "\<exists>l \<in> set (bytes_splitlines payload). malformed_line l"
  shows "(fst (refresh_cache d force s) = Inl ValueError
          \<or> fst (refresh_cache d force s) = Inl UnicodeDecodeError)
    \<and> (is_ascii payload \<longrightarrow> fst (refresh_cache d force s) = Inl ValueError)
    \<and> vm_list (snd (refresh_cache d force s)) = vm_list s
    \<and> vm_objects (snd (refresh_cache d force s)) = vm_objects s"
proof -
  from parse_vm_list_malformed [OF assms(3)] obtain e where
    e: "parse_vm_list (bytes_splitlines payload) [] = Inl e" by blast
  from parse_vm_list_error [OF e] bytes_splitlines_ascii [of payload]
  have "e = ValueError \<or> e = UnicodeDecodeError" "is_ascii payload \<longrightarrow> e = ValueError"
    by auto
  moreover from e assms(1,2)
  have "refresh_cache d force s = (Inl e, s\<lparr>actual_calls := actual_calls s
           @ [(''dom0'', ''mgmt.vm.List'', None, None)]\<rparr>)"
    by (auto simp: refresh_cache_def qubesd_call_def)
  ultimately show ?thesis by auto
qed

theorem refresh_cache_malformed_witness:
  "(True \<or> vm_list init = None)
   \<and> scripted [Inr (''dom0 class=AdminVM'' @ [LF] @ ''vm1 class'' @ [LF])] (actual_calls init)
        (''dom0'', ''mgmt.vm.List'', None, None)
       = Inr (''dom0 class=AdminVM'' @ [LF] @ ''vm1 class'' @ [LF])
   \<and> (\<exists>l \<in> set (bytes_splitlines (''dom0 class=AdminVM'' @ [LF] @ ''vm1 class'' @ [LF])).
         malformed_line l)
   \<and> is_ascii (''dom0 class=AdminVM'' @ [LF] @ ''vm1 class'' @ [LF])
   \<and> fst (refresh_cache (scripted [Inr (''dom0 class=AdminVM'' @ [LF] @ ''vm1 class'' @ [LF])])
        True init) = Inl ValueError
   \<and> vm_list (snd (refresh_cache
        (scripted [Inr (''dom0 class=AdminVM'' @ [LF] @ ''vm1 class'' @ [LF])]) True init)) = None
   \<and> vm_objects (snd (refresh_cache
        (scripted [Inr (''dom0 class=AdminVM'' @ [LF] @ ''vm1 class'' @ [LF])]) True init)) = []"
proof -
  have reply: "scripted [Inr (''dom0 class=AdminVM'' @ [LF] @ ''vm1 class'' @ [LF])]
      (actual_calls init) (''dom0'', ''mgmt.vm.List'', None, None)
      = Inr (''dom0 class=AdminVM'' @ [LF] @ ''vm1 class'' @ [LF])"
    by (simp add: scripted_def init_def)
  have bad: "\<exists>l \<in> set (bytes_splitlines (''dom0 class=AdminVM'' @ [LF] @ ''vm1 class'' @ [LF])).
      malformed_line l"
    by (simp add: bytes_splitlines_def bytes_break_def malformed_line_def split_def)
  have ascii: "is_ascii (''dom0 class=AdminVM'' @ [LF] @ ''vm1 class'' @ [LF])"
    by (simp add: is_ascii_def)
  have init: "vm_list init = None" "vm_objects init = []" by (simp_all add: init_def)
  from refresh_cache_malformed [of True init
      "scripted [Inr (''dom0 class=AdminVM'' @ [LF] @ ''vm1 class'' @ [LF])]"
      "''dom0 class=AdminVM'' @ [LF] @ ''vm1 class'' @ [LF]"] reply bad ascii init
  show ?thesis by simp
qed

text \<open>
  C7 (as stated) fails twice. A line whose properties lack \<^verbatim>\<open>class\<close> is accepted: the
  refresh returns and caches the entry. A line that is only a name makes the refresh
  raise \<open>ValueError\<close>, the exception of the failed unpacking, not a protocol error.
\<close>

theorem refresh_cache_malformed_counterexample:
  "fst (refresh_cache (scripted [Inr (''vm1 state=Running'' @ [LF])]) True init) = Inr ()
   \<and> vm_list (snd (refresh_cache (scripted [Inr (''vm1 state=Running'' @ [LF])]) True init))
       = Some [(''vm1'', [(''state'', ''Running'')])]
   \<and> fst (refresh_cache (scripted [Inr (''vm1'' @ [LF])]) True init) = Inl ValueError"
  by (simp add: refresh_cache_def qubesd_call_def scripted_def init_def bytes_splitlines_def
      bytes_break_def parse_vm_line_def decode_ascii_def is_ascii_def split1_def split_def
      unpack2_def)

section \<open>An empty listing\<close>

lemma pool_drivers_blank_payload:
  assumes "pool_drivers_cache s = None"
    and "d (actual_calls s) (''dom0'', ''mgmt.pool.ListDrivers'', None, None) = Inr [LF]"
  shows "fst (pool_drivers d s) = Inr []"
  using assms
  by (simp add: pool_drivers_def refresh_pool_drivers_def qubesd_call_def endswith_def
      decode_ascii_def is_ascii_def str_splitlines_def str_break_def)

text \<open>
  C9. The listing that is empty but terminated, the single byte \<^verbatim>\<open>\n\<close>, is one empty
  line. The pool-driver parser skips empty lines and yields no driver
  (\<open>pool_drivers_blank_payload\<close>). The VM parser does not: on the same payload
  \<^verbatim>\<open>refresh_cache\<close> raises \<open>ValueError\<close> from unpacking the split of the empty line, and
  nothing is cached, so \<^verbatim>\<open>keys()\<close> raises as well instead of returning no name.
\<close>

theorem vm_listing_blank_payload:
  "fst (refresh_cache (scripted [Inr [LF]]) False init) = Inl ValueError
   \<and> vm_list (snd (refresh_cache (scripted [Inr [LF]]) False init)) = None
   \<and> fst (keys (scripted [Inr [LF]]) init) = Inl ValueError"
  by (simp add: refresh_cache_def keys_def qubesd_call_def scripted_def init_def
      bytes_splitlines_def bytes_break_def parse_vm_line_def decode_ascii_def is_ascii_def
      split1_def unpack2_def)

section \<open>Reconciliation of the instance table\<close>

lemma reconcile_step_cases:
  assumes "reconcile_step vl (k, v) tbl = (tbl', None)"
  shows "tbl' = AList.delete k tbl \<and> listed_class vl (obj_name v) \<noteq> Some (obj_class v)
    \<or> tbl' = AList.delete k (AList.update (obj_name v) v tbl) \<and> k \<noteq> obj_name v
        \<and> listed_class vl (obj_name v) = Some (obj_class v)
    \<or> tbl' = tbl \<and> k = obj_name v \<and> listed_class vl (obj_name v) = Some (obj_class v)"
  using assms
  by (auto simp: reconcile_step_def del_object_def dict_del_def listed_class_def Let_def
      split: option.splits if_splits)

lemma reconcile_Cons_success:
  assumes "reconcile vl ((k, v) # items) tbl = (tbl', None)"
  obtains tbl1 where "reconcile_step vl (k, v) tbl = (tbl1, None)"
    and "reconcile vl items tbl1 = (tbl', None)"
  using assms by (auto split: prod.splits option.splits)

text \<open>
  An instance \<open>v\<close> whose live name is listed with its class ends up stored under its live
  name, provided no other item of the loop is stored under that name or carries it.
\<close>

lemma reconcile_keeps_instance:
  assumes "reconcile vl items tbl = (tbl', None)"
    and "listed_class vl (obj_name v) = Some (obj_class v)"
    and "\<forall>(k', v') \<in> set items. obj_name v' = obj_name v \<or> k' = obj_name v \<longrightarrow> v' = v"
    and "map_of tbl (obj_name v) = Some v \<or> (\<exists>k. k \<noteq> obj_name v \<and> (k, v) \<in> set items)"
  shows "map_of tbl' (obj_name v) = Some v"
  using assms
proof (induction items arbitrary: tbl)
  case Nil
  then show ?case by simp
next
  case (Cons item items)
  obtain k' v' where item: "item = (k', v')" by (cases item)
  from Cons.prems(1) obtain tbl1 where
    step: "reconcile_step vl (k', v') tbl = (tbl1, None)" and
    rest: "reconcile vl items tbl1 = (tbl', None)"
    unfolding item by (rule reconcile_Cons_success)
  have others: "\<forall>(k', v') \<in> set items. obj_name v' = obj_name v \<or> k' = obj_name v \<longrightarrow> v' = v"
    using Cons.prems(3) by simp
  have "map_of tbl1 (obj_name v) = Some v \<or> (\<exists>k. k \<noteq> obj_name v \<and> (k, v) \<in> set items)"
  proof (cases "v' = v")
    case True
    from reconcile_step_cases [OF step] Cons.prems(2,4) True item show ?thesis
      by (auto simp: AList.update_conv' AList.delete_conv')
  next
    case False
    with Cons.prems(3) item have ne: "obj_name v' \<noteq> obj_name v" "k' \<noteq> obj_name v" by auto
    from reconcile_step_cases [OF step] Cons.prems(4) False item ne show ?thesis
      by (auto simp: AList.update_conv' AList.delete_conv')
  qed
  from Cons.IH [OF rest Cons.prems(2) others this] show ?case .
qed

lemma refresh_cache_success:
  assumes "refresh_cache d force s = (Inr (), s1)" and "force \<or> vm_list s = None"
  shows "\<exists>vl. vm_list s1 = Some vl
    \<and> reconcile vl (vm_objects s) (vm_objects s) = (vm_objects s1, None)
    \<and> next_ident s1 = next_ident s \<and> pool_drivers_cache s1 = pool_drivers_cache s"
  using assms
  by (auto simp: refresh_cache_def qubesd_call_def
      split: if_splits sum.splits prod.splits option.splits)

lemma getitem_materialized:
  assumes "vm_list s = Some vl" and "map_of vl item = Some props"
    and "map_of (vm_objects s) item = Some vm"
  shows "getitem d ep item s = (Inr vm, s)"
  using assms by (simp add: getitem_def contains_def refresh_cache_def)

text \<open>
  A renamed instance is re-keyed by a refresh that returns, when its new name is listed
  with its class and no other instance of the table is stored under the new name or
  carries it.
\<close>

lemma rekey_without_collision:
  assumes "refresh_cache d True s = (Inr (), s1)"
    and "(k, v) \<in> set (vm_objects s)" and "k \<noteq> obj_name v"
    and "vm_list s1 = Some vl" and "listed_class vl (obj_name v) = Some (obj_class v)"
    and "\<forall>(k', v') \<in> set (vm_objects s).
           obj_name v' = obj_name v \<or> k' = obj_name v \<longrightarrow> v' = v"
  shows "map_of (vm_objects s1) (obj_name v) = Some v"
proof -
  from refresh_cache_success [OF assms(1)] assms(4)
  have "reconcile vl (vm_objects s) (vm_objects s) = (vm_objects s1, None)" by auto
  from reconcile_keeps_instance [OF this assms(5,6)] assms(2,3) show ?thesis by blast
qed

text \<open>
  C6. The wrappers of \<^verbatim>\<open>a\<close> and \<^verbatim>\<open>b\<close> were materialized, then \<^verbatim>\<open>b\<close> was renamed to \<^verbatim>\<open>c\<close>
  and \<^verbatim>\<open>a\<close> to \<^verbatim>\<open>b\<close>: the table holds under \<^verbatim>\<open>a\<close> the instance 0, whose live name is
  \<^verbatim>\<open>b\<close>, and under \<^verbatim>\<open>b\<close> the instance 1, whose live name is \<^verbatim>\<open>c\<close>. The daemon lists
  \<^verbatim>\<open>b\<close> and \<^verbatim>\<open>c\<close> with the unchanged class. The refresh returns, and the table it leaves
  holds instance 1 under \<^verbatim>\<open>c\<close> only: instance 0 was re-keyed under \<^verbatim>\<open>b\<close> and then
  deleted by the \<^verbatim>\<open>del\<close> of the next item, whose stale key is \<^verbatim>\<open>b\<close>.
\<close>

theorem chained_rename_drops_instance:
  "refresh_cache (scripted [Inr (''b class=AppVM'' @ [LF] @ ''c class=AppVM'' @ [LF])]) True
     (init\<lparr>vm_objects :=
        [(''a'', \<lparr>obj_ident = 0, obj_name = ''b'', obj_class = ''AppVM''\<rparr>),
         (''b'', \<lparr>obj_ident = 1, obj_name = ''c'', obj_class = ''AppVM''\<rparr>)],
        next_ident := 2\<rparr>)
   = (Inr (),
      init\<lparr>actual_calls := [(''dom0'', ''mgmt.vm.List'', None, None)],
        vm_list := Some [(''b'', [(''class'', ''AppVM'')]), (''c'', [(''class'', ''AppVM'')])],
        vm_objects := [(''c'', \<lparr>obj_ident = 1, obj_name = ''c'', obj_class = ''AppVM''\<rparr>)],
        next_ident := 2\<rparr>)"
  by (simp add: refresh_cache_def qubesd_call_def scripted_def init_def bytes_splitlines_def
      bytes_break_def parse_vm_line_def decode_ascii_def is_ascii_def split1_def split_def
      unpack2_def reconcile_step_def del_object_def dict_del_def)

section \<open>Invalidation\<close>

text \<open>
  C10 (as the code has it). \<^verbatim>\<open>clear_cache\<close> resets the cached list and leaves the
  instance table as it is. When the instance stored under a name still carries that
  name, no instance stored under another key carries it, and a refresh after the
  invalidation returns with the name listed under the instance's class, then
  \<^verbatim>\<open>get(name)\<close> returns that instance and creates nothing.
\<close>

theorem clear_cache_keeps_instance:
  assumes "distinct (map fst (vm_objects s))"
    and "map_of (vm_objects s) name = Some vm"
    and "obj_name vm = name"
    and "\<forall>(k, v) \<in> set (vm_objects s). obj_name v = name \<longrightarrow> k = name"
    and "refresh_cache d force (clear_cache s) = (Inr (), s1)"
    and "vm_list s1 = Some vl"
    and "map_of vl name = Some props"
    and "map_of props ''class'' = Some (obj_class vm)"
  shows "vm_objects (clear_cache s) = vm_objects s
    \<and> vm_list (clear_cache s) = None
    \<and> getitem d get_entry_point_one name s1 = (Inr vm, s1)"
proof -
  have frame: "vm_objects (clear_cache s) = vm_objects s" "vm_list (clear_cache s) = None"
    by (simp_all add: clear_cache_def)
  from refresh_cache_success [OF assms(5)] frame assms(6)
  have rec: "reconcile vl (vm_objects s) (vm_objects s) = (vm_objects s1, None)"
    by auto
  have cls: "listed_class vl (obj_name vm) = Some (obj_class vm)"
    using assms(3,7,8) by (simp add: listed_class_def)
  have only: "\<forall>(k, v) \<in> set (vm_objects s).
      obj_name v = obj_name vm \<or> k = obj_name vm \<longrightarrow> v = vm"
  proof (clarify)
    fix k v
    assume kv: "(k, v) \<in> set (vm_objects s)" and "obj_name v = obj_name vm \<or> k = obj_name vm"
    with assms(3,4) have "k = name" by auto
    with kv assms(1) have "map_of (vm_objects s) name = Some v" by simp
    with assms(2) show "v = vm" by simp
  qed
  from reconcile_keeps_instance [OF rec cls only] assms(2,3)
  have "map_of (vm_objects s1) name = Some vm" by simp
  from getitem_materialized [OF assms(6,7) this] frame show ?thesis by simp
qed

theorem clear_cache_keeps_instance_witness:
  "distinct (map fst [(''work'', \<lparr>obj_ident = 0, obj_name = ''work'', obj_class = ''AppVM''\<rparr>)])
   \<and> map_of [(''work'', \<lparr>obj_ident = 0, obj_name = ''work'', obj_class = ''AppVM''\<rparr>)] ''work''
       = Some \<lparr>obj_ident = 0, obj_name = ''work'', obj_class = ''AppVM''\<rparr>
   \<and> refresh_cache (scripted [Inr (''work class=AppVM'' @ [LF])]) False
        (clear_cache (init\<lparr>vm_list := Some [(''work'', [(''class'', ''AppVM'')])],
           vm_objects :=
             [(''work'', \<lparr>obj_ident = 0, obj_name = ''work'', obj_class = ''AppVM''\<rparr>)],
           next_ident := 1\<rparr>))
       = (Inr (),
          init\<lparr>actual_calls := [(''dom0'', ''mgmt.vm.List'', None, None)],
            vm_list := Some [(''work'', [(''class'', ''AppVM'')])],
            vm_objects :=
              [(''work'', \<lparr>obj_ident = 0, obj_name = ''work'', obj_class = ''AppVM''\<rparr>)],
            next_ident := 1\<rparr>)
   \<and> getitem (scripted [Inr (''work class=AppVM'' @ [LF])]) Inr ''work''
        (init\<lparr>actual_calls := [(''dom0'', ''mgmt.vm.List'', None, None)],
           vm_list := Some [(''work'', [(''class'', ''AppVM'')])],
           vm_objects :=
             [(''work'', \<lparr>obj_ident = 0, obj_name = ''work'', obj_class = ''AppVM''\<rparr>)],
           next_ident := 1\<rparr>)
       = (Inr \<lparr>obj_ident = 0, obj_name = ''work'', obj_class = ''AppVM''\<rparr>,
          init\<lparr>actual_calls := [(''dom0'', ''mgmt.vm.List'', None, None)],
            vm_list := Some [(''work'', [(''class'', ''AppVM'')])],
            vm_objects :=
              [(''work'', \<lparr>obj_ident = 0, obj_name = ''work'', obj_class = ''AppVM''\<rparr>)],
            next_ident := 1\<rparr>)"
proof -
  let ?vm = "\<lparr>obj_ident = 0, obj_name = ''work'', obj_class = ''AppVM''\<rparr>"
  let ?s = "init\<lparr>vm_list := Some [(''work'', [(''class'', ''AppVM'')])],
              vm_objects := [(''work'', ?vm)], next_ident := 1\<rparr>"
  let ?s1 = "init\<lparr>actual_calls := [(''dom0'', ''mgmt.vm.List'', None, None)],
               vm_list := Some [(''work'', [(''class'', ''AppVM'')])],
               vm_objects := [(''work'', ?vm)], next_ident := 1\<rparr>"
  let ?d = "scripted [Inr (''work class=AppVM'' @ [LF])]"
  have h1: "distinct (map fst (vm_objects ?s))" by simp
  have h2: "map_of (vm_objects ?s) ''work'' = Some ?vm" by simp
  have h3: "obj_name ?vm = ''work''" by simp
  have h4: "\<forall>(k, v) \<in> set (vm_objects ?s). obj_name v = ''work'' \<longrightarrow> k = ''work''" by simp
  have h5: "refresh_cache ?d False (clear_cache ?s) = (Inr (), ?s1)"
    by (simp add: refresh_cache_def qubesd_call_def scripted_def init_def bytes_splitlines_def
      bytes_break_def parse_vm_line_def decode_ascii_def is_ascii_def split1_def split_def
      unpack2_def reconcile_step_def del_object_def dict_del_def clear_cache_def Let_def)
  have h6: "vm_list ?s1 = Some [(''work'', [(''class'', ''AppVM'')])]" by simp
  have h7: "map_of [(''work'', [(''class'', ''AppVM'')])] ''work'' = Some [(''class'', ''AppVM'')]"
    by simp
  have h8: "map_of [(''class'', ''AppVM'')] ''class'' = Some (obj_class ?vm)" by simp
  from clear_cache_keeps_instance [OF h1 h2 h3 h4 h5 h6 h7 h8, where get_entry_point_one = Inr]
    h5
  show ?thesis by simp
qed

text \<open>
  C10 (as stated) fails when another instance has taken the name. The table holds under
  \<^verbatim>\<open>a\<close> the instance 0, named \<^verbatim>\<open>a\<close>, and under \<^verbatim>\<open>b\<close> the instance 1, renamed to \<^verbatim>\<open>a\<close>
  (the renaming is what invalidated the cache). The refresh lists \<^verbatim>\<open>a\<close> with the unchanged
  class, re-keys instance 1 under \<^verbatim>\<open>a\<close>, and \<^verbatim>\<open>get('a')\<close> returns instance 1, not the
  instance 0 that was stored under \<^verbatim>\<open>a\<close> before the invalidation.
\<close>

theorem clear_cache_keeps_instance_counterexample:
  "map_of (vm_objects (clear_cache
      (init\<lparr>vm_list := Some [(''a'', [(''class'', ''AppVM'')]), (''b'', [(''class'', ''AppVM'')])],
         vm_objects :=
           [(''a'', \<lparr>obj_ident = 0, obj_name = ''a'', obj_class = ''AppVM''\<rparr>),
            (''b'', \<lparr>obj_ident = 1, obj_name = ''a'', obj_class = ''AppVM''\<rparr>)],
         next_ident := 2\<rparr>))) ''a''
     = Some \<lparr>obj_ident = 0, obj_name = ''a'', obj_class = ''AppVM''\<rparr>
   \<and> fst (getitem (scripted [Inr (''a class=AppVM'' @ [LF])]) Inr ''a''
     (snd (refresh_cache (scripted [Inr (''a class=AppVM'' @ [LF])]) False
       (clear_cache
         (init\<lparr>vm_list := Some [(''a'', [(''class'', ''AppVM'')]), (''b'', [(''class'', ''AppVM'')])],
            vm_objects :=
              [(''a'', \<lparr>obj_ident = 0, obj_name = ''a'', obj_class = ''AppVM''\<rparr>),
               (''b'', \<lparr>obj_ident = 1, obj_name = ''a'', obj_class = ''AppVM''\<rparr>)],
            next_ident := 2\<rparr>)))))
     = Inr \<lparr>obj_ident = 1, obj_name = ''a'', obj_class = ''AppVM''\<rparr>"
  by (simp add: refresh_cache_def qubesd_call_def scripted_def init_def bytes_splitlines_def
      bytes_break_def parse_vm_line_def decode_ascii_def is_ascii_def split1_def split_def
      unpack2_def reconcile_step_def del_object_def dict_del_def clear_cache_def getitem_def
      contains_def Let_def)

section \<open>Parsing a well-formed listing\<close>

lemma splitlines_aux_line:
  "\<forall>c \<in> set l. c \<noteq> CR \<and> \<not> brk c \<Longrightarrow> brk LF \<Longrightarrow>
   splitlines_aux brk cur (l @ LF # rest) = (cur @ l) # splitlines_aux brk [] rest"
  by (induction l arbitrary: cur) auto

lemma split_aux_token:
  "sep \<notin> set t \<Longrightarrow> split_aux sep cur (t @ sep # rest) = (cur @ t) # split_aux sep [] rest"
  by (induction t arbitrary: cur) auto

lemma split_aux_last: "sep \<notin> set t \<Longrightarrow> split_aux sep cur t = [cur @ t]"
  by (induction t arbitrary: cur) auto

lemma split_join:
  "toks \<noteq> [] \<Longrightarrow> \<forall>t \<in> set toks. sep \<notin> set t \<Longrightarrow> split sep (join [sep] toks) = toks"
proof (induction "[sep]" toks rule: join.induct)
  case 1
  then show ?case by simp
next
  case (2 x)
  then show ?case by (simp add: split_def split_aux_last)
next
  case (3 x y ys)
  then show ?case by (simp add: split_def split_aux_token)
qed

lemma dropWhile_cut: "sep \<notin> set a \<Longrightarrow> dropWhile (\<lambda>c. c \<noteq> sep) (a @ sep # b) = sep # b"
  by (induction a) auto

lemma takeWhile_cut: "sep \<notin> set a \<Longrightarrow> takeWhile (\<lambda>c. c \<noteq> sep) (a @ sep # b) = a"
  by (induction a) auto

lemma split1_cut: "sep \<notin> set a \<Longrightarrow> split1 sep (a @ sep # b) = [a, b]"
  by (simp add: split1_def dropWhile_cut takeWhile_cut)

lemma update_fresh: "k \<notin> fst ` set acc \<Longrightarrow> AList.update k v acc = acc @ [(k, v)]"
  by (induction acc) auto

lemma dict_of_pairs:
  "distinct (map fst (acc @ ps)) \<Longrightarrow> dict_of (map (\<lambda>kv. [fst kv, snd kv]) ps) acc = Inr (acc @ ps)"
proof (induction ps arbitrary: acc)
  case Nil
  then show ?case by simp
next
  case (Cons p ps)
  from Cons.prems have "fst p \<notin> fst ` set acc" by auto
  then have "AList.update (fst p) (snd p) acc = acc @ [p]" by (simp add: update_fresh)
  with Cons.IH [of "acc @ [p]"] Cons.prems show ?case by simp
qed


lemma join_chars: "set (join sep xs) \<subseteq> set sep \<union> \<Union> (set ` set xs)"
  by (induction sep xs rule: join.induct) auto

lemma token_chars:
  assumes "plain (fst kv)" and "plain (snd kv)"
  shows "is_ascii (listing_token kv)" and "CHR '' '' \<notin> set (listing_token kv)"
    and "LF \<notin> set (listing_token kv)" and "CR \<notin> set (listing_token kv)"
  using assms by (auto simp: listing_token_def plain_def is_ascii_def)

lemma line_chars:
  assumes "well_formed_record r"
  shows "is_ascii (listing_line r)" and "LF \<notin> set (listing_line r)"
    and "CR \<notin> set (listing_line r)"
proof -
  have toks: "\<forall>t \<in> set (map listing_token (snd r)).
      is_ascii t \<and> LF \<notin> set t \<and> CR \<notin> set t"
    using assms token_chars by (auto simp: well_formed_record_def list_all_iff)
  have sub: "set (join '' '' (map listing_token (snd r)))
      \<subseteq> set '' '' \<union> \<Union> (set ` set (map listing_token (snd r)))"
    by (rule join_chars)
  have name: "is_ascii (fst r)" "LF \<notin> set (fst r)" "CR \<notin> set (fst r)"
    using assms by (auto simp: well_formed_record_def plain_def)
  show "LF \<notin> set (listing_line r)"
    using toks sub name by (auto simp: listing_line_def)
  show "CR \<notin> set (listing_line r)"
    using toks sub name by (auto simp: listing_line_def)
  have "\<forall>c \<in> set (join '' '' (map listing_token (snd r))). (of_char c :: nat) < 128"
    using toks sub by (fastforce simp: is_ascii_def list_all_iff)
  with name show "is_ascii (listing_line r)"
    by (auto simp: listing_line_def is_ascii_def list_all_iff)
qed

lemma parse_listing_line:
  assumes "well_formed_record r"
  shows "parse_vm_line (listing_line r) = Inr r"
proof -
  let ?toks = "map listing_token (snd r)"
  have sp: "CHR '' '' \<notin> set (fst r)"
    using assms by (simp add: well_formed_record_def plain_def)
  then have cut: "split1 CHR '' '' (listing_line r) = [fst r, join '' '' ?toks]"
    using split1_cut [of "CHR '' ''" "fst r" "join '' '' ?toks"]
    by (simp add: listing_line_def)
  have "?toks \<noteq> []" using assms by (simp add: well_formed_record_def)
  moreover have "\<forall>t \<in> set ?toks. CHR '' '' \<notin> set t"
    using assms token_chars(2) by (auto simp: well_formed_record_def list_all_iff)
  ultimately have toks: "split CHR '' '' (join '' '' ?toks) = ?toks"
    using split_join [of ?toks "CHR '' ''"] by simp
  have "split1 CHR ''='' (listing_token kv) = [fst kv, snd kv]" if "kv \<in> set (snd r)" for kv
    using that assms split1_cut [of "CHR ''=''" "fst kv" "snd kv"]
    by (auto simp: well_formed_record_def list_all_iff listing_token_def)
  then have pairs: "map (split1 CHR ''='') ?toks = map (\<lambda>kv. [fst kv, snd kv]) (snd r)"
    by simp
  have "dict_of (map (\<lambda>kv. [fst kv, snd kv]) (snd r)) [] = Inr ([] @ snd r)"
    using assms by (intro dict_of_pairs) (simp add: well_formed_record_def)
  then have "dict_of (map (split1 CHR ''='') (split CHR '' '' (join '' '' ?toks))) []
      = Inr (snd r)"
    unfolding toks pairs by simp
  with cut line_chars(1) [OF assms] show ?thesis
    by (simp add: parse_vm_line_def decode_ascii_def unpack2_def)
qed

lemma parse_listing:
  "distinct (map fst (acc @ recs)) \<Longrightarrow> list_all well_formed_record recs \<Longrightarrow>
   parse_vm_list (map listing_line recs) acc = Inr (acc @ recs)"
proof (induction recs arbitrary: acc)
  case Nil
  then show ?case by simp
next
  case (Cons r recs)
  from Cons.prems have "fst r \<notin> fst ` set acc" by auto
  then have "AList.update (fst r) (snd r) acc = acc @ [r]" by (simp add: update_fresh)
  moreover from Cons.prems have "parse_vm_line (listing_line r) = Inr r"
    by (simp add: parse_listing_line)
  ultimately show ?case
    using Cons.IH [of "acc @ [r]"] Cons.prems by (cases r) simp
qed

lemma splitlines_listing:
  "list_all well_formed_record recs \<Longrightarrow>
   bytes_splitlines (listing_payload recs) = map listing_line recs"
proof (induction recs)
  case Nil
  then show ?case by (simp add: bytes_splitlines_def listing_payload_def)
next
  case (Cons r recs)
  then have "\<forall>c \<in> set (listing_line r). c \<noteq> CR \<and> \<not> bytes_break c"
    using line_chars(2,3) [of r] by (auto simp: bytes_break_def)
  moreover have "bytes_break LF" by (simp add: bytes_break_def)
  ultimately have "splitlines_aux bytes_break [] (listing_line r @ LF # listing_payload recs)
      = ([] @ listing_line r) # splitlines_aux bytes_break [] (listing_payload recs)"
    by (rule splitlines_aux_line)
  with Cons show ?case
    by (simp add: bytes_splitlines_def listing_payload_def)
qed


lemma keys_delete: "fst ` set (AList.delete k al) = fst ` set al - {k}"
  using AList.delete_keys [of k al] by (metis set_map set_removeAll)

lemma reconcile_step_total:
  assumes "\<forall>(n, props) \<in> set vl. map_of props ''class'' \<noteq> None"
    and "k \<in> fst ` set tbl"
  obtains tbl1 where "reconcile_step vl (k, v) tbl = (tbl1, None)"
    and "fst ` set tbl - {k} \<subseteq> fst ` set tbl1"
proof (cases "map_of vl (obj_name v)")
  case None
  with assms(2) have "reconcile_step vl (k, v) tbl = (AList.delete k tbl, None)"
    by (simp add: reconcile_step_def del_object_def dict_del_def)
  then show ?thesis using that by (simp add: keys_delete)
next
  case (Some props)
  then have "(obj_name v, props) \<in> set vl" by (rule map_of_SomeD)
  with assms(1) obtain c where c: "map_of props ''class'' = Some c" by fastforce
  consider "obj_class v \<noteq> c" | "obj_class v = c" "k \<noteq> obj_name v"
    | "obj_class v = c" "k = obj_name v" by blast
  then show ?thesis
  proof cases
    case 1
    with Some c assms(2) have "reconcile_step vl (k, v) tbl = (AList.delete k tbl, None)"
      by (simp add: reconcile_step_def del_object_def dict_del_def)
    then show ?thesis using that by (simp add: keys_delete)
  next
    case 2
    with Some c assms(2) have "reconcile_step vl (k, v) tbl
        = (AList.delete k (AList.update (obj_name v) v tbl), None)"
      by (simp add: reconcile_step_def del_object_def dict_del_def AList.dom_update)
    then show ?thesis using that by (auto simp: keys_delete AList.dom_update)
  next
    case 3
    with Some c have "reconcile_step vl (k, v) tbl = (tbl, None)"
      by (simp add: reconcile_step_def)
    then show ?thesis using that by auto
  qed
qed

lemma reconcile_total:
  assumes "\<forall>(n, props) \<in> set vl. map_of props ''class'' \<noteq> None"
    and "distinct (map fst items)" and "fst ` set items \<subseteq> fst ` set tbl"
  shows "snd (reconcile vl items tbl) = None"
  using assms(2,3)
proof (induction items arbitrary: tbl)
  case Nil
  then show ?case by simp
next
  case (Cons item items)
  obtain k v where item: "item = (k, v)" by (cases item)
  with Cons.prems have "k \<in> fst ` set tbl" by auto
  from reconcile_step_total [OF assms(1) this, of v] obtain tbl1 where
    step: "reconcile_step vl (k, v) tbl = (tbl1, None)" and
    keys: "fst ` set tbl - {k} \<subseteq> fst ` set tbl1" by blast
  from Cons.prems item have "distinct (map fst items)" "fst ` set items \<subseteq> fst ` set tbl - {k}"
    by (auto simp: image_iff)
  with keys Cons.IH [of tbl1] have "snd (reconcile vl items tbl1) = None" by blast
  with step item show ?case by simp
qed

text \<open>
  C3. When the daemon answers the listing call of a refresh with the payload of a well
  formed listing, the refresh returns, \<^verbatim>\<open>keys()\<close> after it returns the names of the
  records, each once and in the order of the payload, and the cached list maps every
  name to the key and value pairs of its line.
\<close>

theorem refresh_then_keys:
  assumes "well_formed_listing recs"
    and "distinct (map fst (vm_objects s))"
    and "force \<or> vm_list s = None"
    and "d (actual_calls s) (''dom0'', ''mgmt.vm.List'', None, None) = Inr (listing_payload recs)"
  shows "fst (refresh_cache d force s) = Inr ()
    \<and> fst (keys d (snd (refresh_cache d force s))) = Inr (map fst recs)
    \<and> vm_list (snd (keys d (snd (refresh_cache d force s)))) = Some recs"
proof -
  from assms(1) have wf: "list_all well_formed_record recs" "distinct (map fst ([] @ recs))"
    by (simp_all add: well_formed_listing_def)
  have parse: "parse_vm_list (bytes_splitlines (listing_payload recs)) [] = Inr recs"
    using parse_listing [OF wf(2,1)] splitlines_listing [OF wf(1)] by simp
  have "\<forall>(n, props) \<in> set recs. map_of props ''class'' \<noteq> None"
    using wf(1) by (fastforce simp: list_all_iff well_formed_record_def map_of_eq_None_iff)
  from reconcile_total [OF this assms(2) subset_refl]
  obtain objs where rec: "reconcile recs (vm_objects s) (vm_objects s) = (objs, None)"
    by (cases "reconcile recs (vm_objects s) (vm_objects s)") auto
  let ?s1 = "s\<lparr>actual_calls := actual_calls s @ [(''dom0'', ''mgmt.vm.List'', None, None)],
               vm_list := Some recs, vm_objects := objs\<rparr>"
  have "refresh_cache d force s = (Inr (), ?s1)"
    using assms(3,4) parse rec by (auto simp: refresh_cache_def qubesd_call_def)
  moreover have "keys d ?s1 = (Inr (map fst recs), ?s1)"
    by (simp add: keys_def refresh_cache_def)
  ultimately show ?thesis by simp
qed

theorem refresh_then_keys_witness:
  "well_formed_listing
     [(''dom0'', [(''class'', ''AdminVM''), (''state'', ''Running'')]),
      (''work'', [(''class'', ''AppVM'')])]
   \<and> listing_payload
       [(''dom0'', [(''class'', ''AdminVM''), (''state'', ''Running'')]),
        (''work'', [(''class'', ''AppVM'')])]
     = ''dom0 class=AdminVM state=Running'' @ [LF] @ ''work class=AppVM'' @ [LF]
   \<and> distinct (map fst (vm_objects init))
   \<and> vm_list init = None
   \<and> fst (refresh_cache
        (scripted [Inr (''dom0 class=AdminVM state=Running'' @ [LF] @ ''work class=AppVM'' @ [LF])])
        False init) = Inr ()
   \<and> fst (keys
        (scripted [Inr (''dom0 class=AdminVM state=Running'' @ [LF] @ ''work class=AppVM'' @ [LF])])
        (snd (refresh_cache
          (scripted [Inr (''dom0 class=AdminVM state=Running'' @ [LF] @ ''work class=AppVM'' @ [LF])])
          False init))) = Inr [''dom0'', ''work'']
   \<and> vm_list (snd (keys
        (scripted [Inr (''dom0 class=AdminVM state=Running'' @ [LF] @ ''work class=AppVM'' @ [LF])])
        (snd (refresh_cache
          (scripted [Inr (''dom0 class=AdminVM state=Running'' @ [LF] @ ''work class=AppVM'' @ [LF])])
          False init))))
     = Some [(''dom0'', [(''class'', ''AdminVM''), (''state'', ''Running'')]),
             (''work'', [(''class'', ''AppVM'')])]"
proof -
  let ?recs = "[(''dom0'', [(''class'', ''AdminVM''), (''state'', ''Running'')]),
                (''work'', [(''class'', ''AppVM'')])]"
  let ?p = "''dom0 class=AdminVM state=Running'' @ [LF] @ ''work class=AppVM'' @ [LF]"
  have wf: "well_formed_listing ?recs"
    by (simp add: well_formed_listing_def well_formed_record_def plain_def is_ascii_def)
  have payload: "listing_payload ?recs = ?p"
    by (simp add: listing_payload_def listing_line_def listing_token_def)
  have tbl: "distinct (map fst (vm_objects init))" and none: "vm_list init = None"
    by (simp_all add: init_def)
  have reply: "scripted [Inr ?p] (actual_calls init) (''dom0'', ''mgmt.vm.List'', None, None)
      = Inr (listing_payload ?recs)"
    unfolding payload by (simp add: scripted_def init_def)
  from refresh_then_keys [of ?recs init False "scripted [Inr ?p]"] reply wf payload tbl none
  show ?thesis by simp
qed

section \<open>Identity of the wrapper instances across refreshes\<close>

lemma set_delete: "set (AList.delete k al) = {e \<in> set al. fst e \<noteq> k}"
  by (auto simp: AList.delete_eq)

lemma set_update_cases: "e \<in> set (AList.update k v al) \<Longrightarrow> e = (k, v) \<or> e \<in> set al"
  by (induction al) (auto split: if_splits)

lemma reconcile_in_step:
  assumes "reconcile vl items tbl = (tbl', None)"
    and "\<forall>e \<in> set tbl. in_step vl [e] \<or> e \<in> set items"
  shows "in_step vl tbl'"
  using assms
proof (induction items arbitrary: tbl)
  case Nil
  then show ?case by (auto simp: in_step_def)
next
  case (Cons item items)
  obtain k v where item: "item = (k, v)" by (cases item)
  from Cons.prems(1) obtain tbl1 where
    step: "reconcile_step vl (k, v) tbl = (tbl1, None)" and
    rest: "reconcile vl items tbl1 = (tbl', None)"
    unfolding item by (rule reconcile_Cons_success)
  have "\<forall>e \<in> set tbl1. in_step vl [e] \<or> e \<in> set items"
  proof
    fix e assume e: "e \<in> set tbl1"
    from reconcile_step_cases [OF step] show "in_step vl [e] \<or> e \<in> set items"
    proof (elim disjE conjE)
      assume "tbl1 = AList.delete k tbl"
      with e Cons.prems(2) item show ?thesis by (auto simp: set_delete)
    next
      assume t: "tbl1 = AList.delete k (AList.update (obj_name v) v tbl)"
        and "listed_class vl (obj_name v) = Some (obj_class v)"
      from e t have "fst e \<noteq> k" "e = (obj_name v, v) \<or> e \<in> set tbl"
        by (auto simp: set_delete dest: set_update_cases)
      with Cons.prems(2) item \<open>listed_class vl (obj_name v) = Some (obj_class v)\<close>
      show ?thesis by (auto simp: in_step_def)
    next
      assume "tbl1 = tbl" "k = obj_name v" "listed_class vl (obj_name v) = Some (obj_class v)"
      with e Cons.prems(2) item show ?thesis by (auto simp: in_step_def)
    qed
  qed
  from Cons.IH [OF rest this] show ?case .
qed

lemma reconcile_step_result:
  "reconcile_step vl (k, v) tbl = (tbl', err) \<Longrightarrow>
   tbl' = tbl \<or> tbl' = AList.delete k tbl \<or> tbl' = AList.update (obj_name v) v tbl
   \<or> tbl' = AList.delete k (AList.update (obj_name v) v tbl)"
  by (auto simp: reconcile_step_def del_object_def dict_del_def Let_def
      split: option.splits if_splits)

lemma reconcile_step_wf:
  assumes "reconcile_step vl (k, v) tbl = (tbl', err)"
  shows "distinct (map fst tbl) \<longrightarrow> distinct (map fst tbl')"
    and "snd ` set tbl' \<subseteq> insert v (snd ` set tbl)"
  using reconcile_step_result [OF assms]
  by (auto simp: AList.distinct_update AList.distinct_delete set_delete
      dest!: set_update_cases)

lemma reconcile_Cons_None:
  "reconcile_step vl item tbl = (tbl1, None) \<Longrightarrow>
   reconcile vl (item # items) tbl = reconcile vl items tbl1"
  by simp

lemma reconcile_Cons_Some:
  "reconcile_step vl item tbl = (tbl1, Some e) \<Longrightarrow>
   reconcile vl (item # items) tbl = (tbl1, Some e)"
  by simp

lemma reconcile_wf:
  assumes "reconcile vl items tbl = (tbl', err)"
  shows "(distinct (map fst tbl) \<longrightarrow> distinct (map fst tbl'))
    \<and> snd ` set tbl' \<subseteq> snd ` set tbl \<union> snd ` set items"
  using assms
proof (induction items arbitrary: tbl)
  case Nil
  then show ?case by simp
next
  case (Cons item items)
  obtain k v where item: "item = (k, v)" by (cases item)
  obtain tbl1 e1 where step: "reconcile_step vl item tbl = (tbl1, e1)"
    by (cases "reconcile_step vl item tbl")
  note wf = reconcile_step_wf [OF step [unfolded item]]
  show ?case
  proof (cases e1)
    case None
    with step have "reconcile_step vl item tbl = (tbl1, None)" by simp
    from Cons.prems reconcile_Cons_None [OF this, of items]
    have "reconcile vl items tbl1 = (tbl', err)" by (simp del: reconcile.simps)
    from Cons.IH [OF this] have ih: "distinct (map fst tbl1) \<longrightarrow> distinct (map fst tbl')"
      "snd ` set tbl' \<subseteq> snd ` set tbl1 \<union> snd ` set items" by simp_all
    from ih(1) wf(1) have "distinct (map fst tbl) \<longrightarrow> distinct (map fst tbl')" by blast
    moreover from ih(2) wf(2)
    have "snd ` set tbl' \<subseteq> snd ` set tbl \<union> snd ` set (item # items)"
      unfolding item by (simp add: subset_iff) blast
    ultimately show ?thesis by simp
  next
    case (Some e)
    with step have "reconcile_step vl item tbl = (tbl1, Some e)" by simp
    from Cons.prems reconcile_Cons_Some [OF this, of items]
    have "tbl' = tbl1" by (simp del: reconcile.simps)
    with wf(2) have "snd ` set tbl' \<subseteq> snd ` set tbl \<union> snd ` set (item # items)"
      unfolding item by (simp add: subset_iff) blast
    with wf(1) \<open>tbl' = tbl1\<close> show ?thesis by simp
  qed
qed

lemma refresh_cache_wf:
  assumes "refresh_cache d force s = (Inr (), s1)" and "wf_table s"
  shows "wf_table s1"
proof (cases "force \<or> vm_list s = None")
  case False
  with assms show ?thesis by (simp add: refresh_cache_def)
next
  case True
  from refresh_cache_success [OF assms(1) True] obtain vl where
    rec: "reconcile vl (vm_objects s) (vm_objects s) = (vm_objects s1, None)" and
    nxt: "next_ident s1 = next_ident s" by blast
  from reconcile_wf [OF rec] have keys: "distinct (map fst (vm_objects s)) \<longrightarrow>
      distinct (map fst (vm_objects s1))"
    and vals: "snd ` set (vm_objects s1) \<subseteq> snd ` set (vm_objects s)" by simp_all
  from assms(2) keys have "distinct (map fst (vm_objects s1))" by (simp add: wf_table_def)
  moreover from assms(2) vals nxt
  have "\<forall>v \<in> snd ` set (vm_objects s1). obj_ident v < next_ident s1"
    unfolding wf_table_def by (metis subsetD)
  moreover from assms(2) vals
  have "\<forall>v \<in> snd ` set (vm_objects s1). \<forall>v' \<in> snd ` set (vm_objects s1).
      obj_ident v = obj_ident v' \<longrightarrow> v = v'"
    unfolding wf_table_def by (meson subsetD)
  ultimately show ?thesis by (simp add: wf_table_def)
qed

lemma refresh_cache_in_step:
  assumes "refresh_cache d True s = (Inr (), s1)" and "vm_list s1 = Some vl"
  shows "in_step vl (vm_objects s1)"
proof -
  from refresh_cache_success [OF assms(1)] assms(2)
  have "reconcile vl (vm_objects s) (vm_objects s) = (vm_objects s1, None)" by auto
  then show ?thesis by (rule reconcile_in_step) simp
qed


lemma getitem_cases:
  assumes "vm_list s = Some vl" and "getitem d ep item s = (Inr r, s')"
  shows "map_of vl item \<noteq> None"
    and "(map_of (vm_objects s) item = Some r \<and> s' = s)
      \<or> (map_of (vm_objects s) item = None
          \<and> (\<exists>c cls. listed_class vl item = Some c \<and> ep c = Inr cls
                \<and> r = new_vm (next_ident s) item cls)
          \<and> s' = s\<lparr>vm_objects := AList.update item r (vm_objects s),
                    next_ident := Suc (next_ident s)\<rparr>)"
  using assms
  by (auto simp: getitem_def contains_def refresh_cache_def listed_class_def Let_def
      split: option.splits sum.splits if_splits bool.splits)

lemma reconcile_self_keyed:
  assumes "reconcile vl items tbl = (tbl', None)"
    and "\<forall>(k, v) \<in> set items. obj_name v = k"
  shows "set tbl' \<subseteq> set tbl
    \<and> (\<forall>(k, v) \<in> set items. listed_class vl k \<noteq> Some (obj_class v) \<longrightarrow> k \<notin> fst ` set tbl')"
  using assms
proof (induction items arbitrary: tbl)
  case Nil
  then show ?case by simp
next
  case (Cons item items)
  obtain k v where item: "item = (k, v)" by (cases item)
  from Cons.prems(1) obtain tbl1 where
    step: "reconcile_step vl (k, v) tbl = (tbl1, None)" and
    rest: "reconcile vl items tbl1 = (tbl', None)"
    unfolding item by (rule reconcile_Cons_success)
  from Cons.prems(2) item have self: "obj_name v = k" "\<forall>(k, v) \<in> set items. obj_name v = k"
    by auto
  from Cons.IH [OF rest self(2)] have ih: "set tbl' \<subseteq> set tbl1"
    "\<forall>(k, v) \<in> set items. listed_class vl k \<noteq> Some (obj_class v) \<longrightarrow> k \<notin> fst ` set tbl'"
    by simp_all
  from reconcile_step_cases [OF step] self(1)
  have "tbl1 = AList.delete k tbl \<and> listed_class vl k \<noteq> Some (obj_class v)
      \<or> tbl1 = tbl \<and> listed_class vl k = Some (obj_class v)" by auto
  then have sub: "set tbl1 \<subseteq> set tbl"
    and gone: "listed_class vl k \<noteq> Some (obj_class v) \<longrightarrow> k \<notin> fst ` set tbl1"
    by (auto simp: set_delete)
  from sub ih(1) have "set tbl' \<subseteq> set tbl" by blast
  moreover from gone ih(1) have "listed_class vl k \<noteq> Some (obj_class v) \<longrightarrow> k \<notin> fst ` set tbl'"
    by blast
  ultimately show ?case using ih(2) item by simp
qed


lemma getitem_after_refresh:
  assumes wf: "wf_table s1" and step: "in_step vl (vm_objects s1)"
    and vl: "vm_list s1 = Some vl" and cls: "listed_class vl name = Some c"
    and ep: "\<forall>cls. ep c = Inr cls \<longrightarrow> cls = c"
    and get: "getitem d ep name s1 = (Inr vm, s2)"
  shows "map_of (vm_objects s2) name = Some vm \<and> obj_name vm = name \<and> obj_class vm = c
    \<and> (\<forall>(k, v) \<in> set (vm_objects s2). obj_name v = k) \<and> wf_table s2"
proof -
  from getitem_cases(2) [OF vl get]
  consider (old) "map_of (vm_objects s1) name = Some vm" "s2 = s1"
    | (new) cls where "map_of (vm_objects s1) name = None" "ep c = Inr cls"
        "vm = new_vm (next_ident s1) name cls"
        "s2 = s1\<lparr>vm_objects := AList.update name vm (vm_objects s1),
                  next_ident := Suc (next_ident s1)\<rparr>"
    using cls by auto
  then show ?thesis
  proof cases
    case old
    from old(1) have "(name, vm) \<in> set (vm_objects s1)" by (rule map_of_SomeD)
    with step cls have "obj_name vm = name" "obj_class vm = c"
      by (auto simp: in_step_def)
    moreover from step have "\<forall>(k, v) \<in> set (vm_objects s1). obj_name v = k"
      by (auto simp: in_step_def)
    ultimately show ?thesis using old wf by simp
  next
    case new
    from new(2) ep have "cls = c" by simp
    with new(3) have vm: "obj_name vm = name" "obj_class vm = c" "obj_ident vm = next_ident s1"
      by (simp_all add: new_vm_def)
    have tbl: "vm_objects s2 = AList.update name vm (vm_objects s1)"
      and nxt: "next_ident s2 = Suc (next_ident s1)"
      using new(4) by simp_all
    have mem: "e = (name, vm) \<or> e \<in> set (vm_objects s1)" if "e \<in> set (vm_objects s2)" for e
      using that unfolding tbl by (rule set_update_cases)
    have look: "map_of (vm_objects s2) name = Some vm"
      by (simp add: tbl AList.update_conv')
    have keyed: "\<forall>(k, v) \<in> set (vm_objects s2). obj_name v = k"
      using mem step vm(1) by (fastforce simp: in_step_def)
    have "distinct (map fst (vm_objects s2))"
      using wf by (simp add: tbl wf_table_def AList.distinct_update)
    moreover have old_lt: "obj_ident v < next_ident s1" if "v \<in> snd ` set (vm_objects s1)" for v
      using that wf unfolding wf_table_def by blast
    have vals: "v = vm \<or> v \<in> snd ` set (vm_objects s1)" if "v \<in> snd ` set (vm_objects s2)" for v
      using that mem by force
    have "\<forall>v \<in> snd ` set (vm_objects s2). obj_ident v < next_ident s2"
      using vals old_lt vm(3) nxt by (metis less_Suc_eq)
    moreover have "\<forall>v \<in> snd ` set (vm_objects s2). \<forall>v' \<in> snd ` set (vm_objects s2).
        obj_ident v = obj_ident v' \<longrightarrow> v = v'"
    proof (intro ballI impI)
      fix v v'
      assume a: "v \<in> snd ` set (vm_objects s2)" "v' \<in> snd ` set (vm_objects s2)"
        "obj_ident v = obj_ident v'"
      from vals [OF a(1)] vals [OF a(2)] show "v = v'"
      proof (elim disjE)
        assume "v = vm" "v' = vm" then show ?thesis by simp
      next
        assume "v = vm" "v' \<in> snd ` set (vm_objects s1)"
        with old_lt [of v'] vm(3) a(3) show ?thesis by simp
      next
        assume "v \<in> snd ` set (vm_objects s1)" "v' = vm"
        with old_lt [of v] vm(3) a(3) show ?thesis by simp
      next
        assume "v \<in> snd ` set (vm_objects s1)" "v' \<in> snd ` set (vm_objects s1)"
        with wf a(3) show ?thesis unfolding wf_table_def by blast
      qed
    qed
    ultimately have "wf_table s2" by (simp add: wf_table_def)
    with look vm keyed show ?thesis by simp
  qed
qed


text \<open>
  C5. From a well-formed table, take a forced refresh, \<^verbatim>\<open>get(name)\<close>, a second forced
  refresh and \<^verbatim>\<open>get(name)\<close> again, all four returning, with the class registered under
  the entry point of the first listed class bearing that name. If the two listings give
  the name the same class, the second \<^verbatim>\<open>get\<close> returns the very instance of the first.
  If the class differs, the second \<^verbatim>\<open>get\<close> returns an instance with another identity,
  and no entry of the table holds the identity of the first instance any more.
\<close>

theorem identity_stability:
  assumes wf: "wf_table s"
    and r1: "refresh_cache d True s = (Inr (), s1)"
    and g1: "getitem d get_entry_point_one name s1 = (Inr vm1, s2)"
    and r2: "refresh_cache d True s2 = (Inr (), s3)"
    and g2: "getitem d get_entry_point_one name s3 = (Inr vm2, s4)"
    and vl1: "vm_list s1 = Some vl1" and p1: "map_of vl1 name = Some props1"
    and c1: "map_of props1 ''class'' = Some c1"
    and vl3: "vm_list s3 = Some vl3" and p3: "map_of vl3 name = Some props3"
    and c3: "map_of props3 ''class'' = Some c3"
    and ep: "\<forall>cls. get_entry_point_one c1 = Inr cls \<longrightarrow> cls = c1"
  shows "(c1 = c3 \<longrightarrow> vm2 = vm1)
    \<and> (c1 \<noteq> c3 \<longrightarrow> obj_ident vm2 \<noteq> obj_ident vm1
          \<and> obj_ident vm1 \<notin> obj_ident ` snd ` set (vm_objects s4))"
proof -
  have lc1: "listed_class vl1 name = Some c1" and lc3: "listed_class vl3 name = Some c3"
    using p1 c1 p3 c3 by (simp_all add: listed_class_def)
  have wf1: "wf_table s1" using r1 wf by (rule refresh_cache_wf)
  have step1: "in_step vl1 (vm_objects s1)" using r1 vl1 by (rule refresh_cache_in_step)
  from getitem_after_refresh [OF wf1 step1 vl1 lc1 ep g1]
  have look: "map_of (vm_objects s2) name = Some vm1"
    and nm: "obj_name vm1 = name" and cl: "obj_class vm1 = c1"
    and keyed: "\<forall>(k, v) \<in> set (vm_objects s2). obj_name v = k"
    and wf2: "wf_table s2" by simp_all
  from look have mem: "(name, vm1) \<in> set (vm_objects s2)" by (rule map_of_SomeD)
  from refresh_cache_success [OF r2] vl3
  have rec: "reconcile vl3 (vm_objects s2) (vm_objects s2) = (vm_objects s3, None)"
    and nxt: "next_ident s3 = next_ident s2" by auto
  have same: "vm2 = vm1" if "c1 = c3"
  proof -
    from that lc3 nm cl have "listed_class vl3 (obj_name vm1) = Some (obj_class vm1)" by simp
    moreover have "\<forall>(k', v') \<in> set (vm_objects s2).
        obj_name v' = obj_name vm1 \<or> k' = obj_name vm1 \<longrightarrow> v' = vm1"
    proof (clarify)
      fix k' v'
      assume kv: "(k', v') \<in> set (vm_objects s2)"
        and "obj_name v' = obj_name vm1 \<or> k' = obj_name vm1"
      with keyed nm have "k' = name" by auto
      with kv wf2 have "map_of (vm_objects s2) name = Some v'" by (simp add: wf_table_def)
      with look show "v' = vm1" by simp
    qed
    moreover have "map_of (vm_objects s2) (obj_name vm1) = Some vm1
        \<or> (\<exists>k. k \<noteq> obj_name vm1 \<and> (k, vm1) \<in> set (vm_objects s2))"
      using look nm by simp
    ultimately have "map_of (vm_objects s3) (obj_name vm1) = Some vm1"
      using rec by (intro reconcile_keeps_instance)
    with nm have "map_of (vm_objects s3) name = Some vm1" by simp
    from getitem_materialized [OF vl3 p3 this] g2 show ?thesis by simp
  qed
  have changed: "obj_ident vm2 \<noteq> obj_ident vm1
      \<and> obj_ident vm1 \<notin> obj_ident ` snd ` set (vm_objects s4)" if "c1 \<noteq> c3"
  proof -
    from reconcile_self_keyed [OF rec keyed]
    have sub: "set (vm_objects s3) \<subseteq> set (vm_objects s2)"
      and gone: "\<forall>(k, v) \<in> set (vm_objects s2).
        listed_class vl3 k \<noteq> Some (obj_class v) \<longrightarrow> k \<notin> fst ` set (vm_objects s3)"
      by simp_all
    from gone mem lc3 cl that have absent: "name \<notin> fst ` set (vm_objects s3)" by auto
    then have "map_of (vm_objects s3) name = None" by (simp add: map_of_eq_None_iff)
    with getitem_cases(2) [OF vl3 g2] obtain cls where
      vm2: "vm2 = new_vm (next_ident s3) name cls" and
      s4: "s4 = s3\<lparr>vm_objects := AList.update name vm2 (vm_objects s3),
                    next_ident := Suc (next_ident s3)\<rparr>"
      by auto
    from wf2 mem have lt: "obj_ident vm1 < next_ident s2"
      unfolding wf_table_def by force
    from vm2 nxt have id2: "obj_ident vm2 = next_ident s2" by (simp add: new_vm_def)
    with lt have ne: "obj_ident vm2 \<noteq> obj_ident vm1" by simp
    have "obj_ident (snd e) \<noteq> obj_ident vm1" if e: "e \<in> set (vm_objects s4)" for e
    proof
      assume eq: "obj_ident (snd e) = obj_ident vm1"
      from e s4 have "e = (name, vm2) \<or> e \<in> set (vm_objects s3)"
        by (auto dest: set_update_cases)
      then show False
      proof
        assume "e = (name, vm2)"
        with eq ne show False by simp
      next
        assume e3: "e \<in> set (vm_objects s3)"
        with sub have e2: "e \<in> set (vm_objects s2)" by blast
        with wf2 mem eq have "snd e = vm1" unfolding wf_table_def by force
        moreover from keyed e2 have "obj_name (snd e) = fst e" by auto
        ultimately have "fst e = name" using nm by simp
        with e3 absent show False by force
      qed
    qed
    then have "obj_ident vm1 \<notin> obj_ident ` snd ` set (vm_objects s4)" by force
    with ne show ?thesis by simp
  qed
  from same changed show ?thesis by blast
qed

lemmas collection_eval = refresh_cache_def qubesd_call_def scripted_def init_def
  bytes_splitlines_def bytes_break_def parse_vm_line_def decode_ascii_def is_ascii_def
  split1_def split_def unpack2_def reconcile_step_def del_object_def dict_del_def
  getitem_def contains_def new_vm_def Let_def

theorem identity_stability_witness:
  "fst (getitem (scripted [Inr (''w class=A'' @ [LF]), Inr (''w class=A'' @ [LF])]) Inr ''w''
      (snd (refresh_cache (scripted [Inr (''w class=A'' @ [LF]), Inr (''w class=A'' @ [LF])])
         True init)))
     = Inr \<lparr>obj_ident = 0, obj_name = ''w'', obj_class = ''A''\<rparr>
   \<and> fst (getitem (scripted [Inr (''w class=A'' @ [LF]), Inr (''w class=A'' @ [LF])]) Inr ''w''
      (snd (refresh_cache (scripted [Inr (''w class=A'' @ [LF]), Inr (''w class=A'' @ [LF])])
         True
         (snd (getitem (scripted [Inr (''w class=A'' @ [LF]), Inr (''w class=A'' @ [LF])]) Inr
            ''w''
            (snd (refresh_cache
               (scripted [Inr (''w class=A'' @ [LF]), Inr (''w class=A'' @ [LF])])
               True init)))))))
     = Inr \<lparr>obj_ident = 0, obj_name = ''w'', obj_class = ''A''\<rparr>
   \<and> getitem (scripted [Inr (''w class=A'' @ [LF]), Inr (''w class=B'' @ [LF])]) Inr ''w''
      (snd (refresh_cache (scripted [Inr (''w class=A'' @ [LF]), Inr (''w class=B'' @ [LF])])
         True
         (snd (getitem (scripted [Inr (''w class=A'' @ [LF]), Inr (''w class=B'' @ [LF])]) Inr
            ''w''
            (snd (refresh_cache
               (scripted [Inr (''w class=A'' @ [LF]), Inr (''w class=B'' @ [LF])])
               True init))))))
     = (Inr \<lparr>obj_ident = 1, obj_name = ''w'', obj_class = ''B''\<rparr>,
        init\<lparr>actual_calls := [(''dom0'', ''mgmt.vm.List'', None, None),
                  (''dom0'', ''mgmt.vm.List'', None, None)],
          vm_list := Some [(''w'', [(''class'', ''B'')])],
          vm_objects := [(''w'', \<lparr>obj_ident = 1, obj_name = ''w'', obj_class = ''B''\<rparr>)],
          next_ident := 2\<rparr>)"
proof -
  let ?lc = "(''dom0'', ''mgmt.vm.List'', None, None) :: call"
  let ?A = "[(''w'', [(''class'', ''A'')])] :: snapshot"
  let ?B = "[(''w'', [(''class'', ''B'')])] :: snapshot"
  let ?vm = "\<lparr>obj_ident = 0, obj_name = ''w'', obj_class = ''A''\<rparr>"
  let ?vm' = "\<lparr>obj_ident = 1, obj_name = ''w'', obj_class = ''B''\<rparr>"
  let ?s1 = "init\<lparr>actual_calls := [?lc], vm_list := Some ?A\<rparr>"
  let ?s2 = "init\<lparr>actual_calls := [?lc], vm_list := Some ?A, vm_objects := [(''w'', ?vm)],
               next_ident := 1\<rparr>"
  let ?s3 = "init\<lparr>actual_calls := [?lc, ?lc], vm_list := Some ?A,
               vm_objects := [(''w'', ?vm)], next_ident := 1\<rparr>"
  let ?t3 = "init\<lparr>actual_calls := [?lc, ?lc], vm_list := Some ?B, vm_objects := [],
               next_ident := 1\<rparr>"
  let ?t4 = "init\<lparr>actual_calls := [?lc, ?lc], vm_list := Some ?B,
               vm_objects := [(''w'', ?vm')], next_ident := 2\<rparr>"
  let ?d = "scripted [Inr (''w class=A'' @ [LF]), Inr (''w class=A'' @ [LF])]"
  let ?e = "scripted [Inr (''w class=A'' @ [LF]), Inr (''w class=B'' @ [LF])]"
  have wf: "wf_table init" by (simp add: wf_table_def init_def)
  have ep: "\<forall>cls. (Inr ''A'' :: exn + str) = Inr cls \<longrightarrow> cls = ''A''" by simp
  have d1: "refresh_cache ?d True init = (Inr (), ?s1)" by (simp add: collection_eval)
  have d2: "getitem ?d Inr ''w'' ?s1 = (Inr ?vm, ?s2)" by (simp add: collection_eval)
  have d3: "refresh_cache ?d True ?s2 = (Inr (), ?s3)" by (simp add: collection_eval)
  have d4: "getitem ?d Inr ''w'' ?s3 = (Inr ?vm, ?s3)" by (simp add: collection_eval)
  have e1: "refresh_cache ?e True init = (Inr (), ?s1)" by (simp add: collection_eval)
  have e2: "getitem ?e Inr ''w'' ?s1 = (Inr ?vm, ?s2)" by (simp add: collection_eval)
  have e3: "refresh_cache ?e True ?s2 = (Inr (), ?t3)" by (simp add: collection_eval)
  have e4: "getitem ?e Inr ''w'' ?t3 = (Inr ?vm', ?t4)" by (simp add: collection_eval)
  have l1: "vm_list ?s1 = Some ?A" "map_of ?A ''w'' = Some [(''class'', ''A'')]"
    "map_of [(''class'', ''A'')] ''class'' = Some ''A''" by simp_all
  have l3: "vm_list ?s3 = Some ?A" by simp
  have m3: "vm_list ?t3 = Some ?B" "map_of ?B ''w'' = Some [(''class'', ''B'')]"
    "map_of [(''class'', ''B'')] ''class'' = Some ''B''" by simp_all
  note same = identity_stability [OF wf d1 d2 d3 d4 l1 l3 l1(2,3) ep]
  note changed = identity_stability [OF wf e1 e2 e3 e4 l1 m3 ep]
  from same changed d1 d2 d3 d4 e1 e2 e3 e4 show ?thesis by simp
qed

end
